theory Spec2Isabelle
  imports Complex_Main "HOL-Library.Word" "HOL-Library.Multiset"
begin

section \<open>JavaScript strings and arrays\<close>

text \<open>
  A JavaScript string is a sequence of UTF-16 code units. String literals of the source
  that are plain ASCII are written \<open>js ''...''\<close>.
\<close>

type_synonym code_unit = "16 word"
type_synonym jsstring = "code_unit list"

definition js :: "string \<Rightarrow> jsstring" where
  "js s = map of_char s"

text \<open>
  The class \<^verbatim>\<open>\s\<close> of a regular expression, which is also the set that
  \<^verbatim>\<open>String.prototype.trim\<close> removes: WhiteSpace and LineTerminator of ECMAScript.
\<close>

definition isSpace :: "code_unit \<Rightarrow> bool" where
  "isSpace c \<longleftrightarrow>
     c \<in> {0x09, 0x0A, 0x0B, 0x0C, 0x0D, 0x20, 0xA0, 0x1680, 0x2028, 0x2029,
          0x202F, 0x205F, 0x3000, 0xFEFF} \<or> (0x2000 \<le> c \<and> c \<le> 0x200A)"

text \<open>
  \<^verbatim>\<open>Array.prototype.slice(start, end)\<close> on integer arguments: a negative index counts
  from the end, and both indices are clamped to the array.
\<close>

definition clampIndex :: "int \<Rightarrow> nat \<Rightarrow> nat" where
  "clampIndex k len = (if k < 0 then nat (max (int len + k) 0) else min (nat k) len)"

definition slice :: "'a list \<Rightarrow> int \<Rightarrow> int \<Rightarrow> 'a list" where
  "slice xs start end =
     (let k = clampIndex start (length xs); final = clampIndex end (length xs)
      in take (final - k) (drop k xs))"

text \<open>\<^verbatim>\<open>Array.prototype.join(sep)\<close> on an array of strings.\<close>

fun join :: "jsstring \<Rightarrow> jsstring list \<Rightarrow> jsstring" where
  "join sep [] = []"
| "join sep [x] = x"
| "join sep (x # y # ys) = x @ sep @ join sep (y # ys)"

text \<open>
  \<^verbatim>\<open>text.split(/\s+/)\<close>: the pieces between the maximal runs of white space; a run at
  the start or at the end of the text leaves an empty piece there. \<open>cur\<close> is the piece
  being read.
\<close>

function splitSpaces :: "jsstring \<Rightarrow> jsstring \<Rightarrow> jsstring list" where
  "splitSpaces cur [] = [cur]"
| "splitSpaces cur (c # cs) =
     (if isSpace c then cur # splitSpaces [] (dropWhile isSpace cs)
      else splitSpaces (cur @ [c]) cs)"
  by pat_completeness auto
termination
  by (relation "measure (\<lambda>(cur, s). length s)")
     (auto simp: le_imp_less_Suc length_dropWhile_le)

section \<open>JavaScript numbers\<close>

text \<open>
  A JavaScript number is a double: not a number, an infinity, or a finite value, here a
  rational (the two zeros are not told apart). The result of an addition is the exact
  sum rounded to the nearest double, ties to even, as IEEE 754 has it.
\<close>

datatype jsnumber = NaN | NegInfinity | Finite rat | PosInfinity

definition pow2 :: "int \<Rightarrow> rat" where
  "pow2 e = (if 0 \<le> e then 2 ^ nat e else 1 / 2 ^ nat (- e))"

text \<open>The number of binary digits of a positive integer.\<close>

function bitLength :: "int \<Rightarrow> nat" where
  "bitLength n = (if n \<le> 0 then 0 else Suc (bitLength (n div 2)))"
  by auto

termination bitLength
  by (relation "measure nat") auto

declare bitLength.simps [simp del]

text \<open>For \<open>q > 0\<close>, the exponent \<open>e\<close> with \<open>2 ^ e \<le> q < 2 ^ (e + 1)\<close>.\<close>

definition exponentOf :: "rat \<Rightarrow> int" where
  "exponentOf q =
     (if 1 \<le> q then int (bitLength \<lfloor>q\<rfloor>) - 1
      else - int (bitLength (\<lceil>1 / q\<rceil> - 1)))"

definition roundHalfEven :: "rat \<Rightarrow> int" where
  "roundHalfEven x =
     (let n = \<lfloor>x + 1 / 2\<rfloor> in if of_int n = x + 1 / 2 \<and> odd n then n - 1 else n)"

text \<open>
  Rounding of a positive rational: 53 binary digits from the exponent down, the exponent
  being at least -1022; a result of \<open>2 ^ 1024\<close> or more is infinite.
\<close>

definition roundPositive :: "rat \<Rightarrow> jsnumber" where
  "roundPositive q =
     (let e = max (exponentOf q) (- 1022);
          ulp = pow2 (e - 52);
          r = of_int (roundHalfEven (q / ulp)) * ulp
      in if pow2 1024 \<le> r then PosInfinity else Finite r)"

definition negate :: "jsnumber \<Rightarrow> jsnumber" where
  "negate v =
     (case v of NaN \<Rightarrow> NaN | NegInfinity \<Rightarrow> PosInfinity | PosInfinity \<Rightarrow> NegInfinity
      | Finite q \<Rightarrow> Finite (- q))"

definition roundDouble :: "rat \<Rightarrow> jsnumber" where
  "roundDouble q =
     (if q = 0 then Finite 0
      else if 0 < q then roundPositive q
      else negate (roundPositive (- q)))"

text \<open>A value that is a JavaScript number: a finite one is a double.\<close>

definition isDouble :: "jsnumber \<Rightarrow> bool" where
  "isDouble v = (case v of Finite q \<Rightarrow> roundDouble q = Finite q | _ \<Rightarrow> True)"

text \<open>\<open>a + b\<close>\<close>

fun jsAdd :: "jsnumber \<Rightarrow> jsnumber \<Rightarrow> jsnumber" where
  "jsAdd NaN b = NaN"
| "jsAdd a NaN = NaN"
| "jsAdd PosInfinity NegInfinity = NaN"
| "jsAdd NegInfinity PosInfinity = NaN"
| "jsAdd PosInfinity b = PosInfinity"
| "jsAdd a PosInfinity = PosInfinity"
| "jsAdd NegInfinity b = NegInfinity"
| "jsAdd a NegInfinity = NegInfinity"
| "jsAdd (Finite a) (Finite b) = roundDouble (a + b)"

text \<open>\<open>a < b\<close>, which is false when either side is not a number.\<close>

fun jsLess :: "jsnumber \<Rightarrow> jsnumber \<Rightarrow> bool" where
  "jsLess NaN b = False"
| "jsLess a NaN = False"
| "jsLess a NegInfinity = False"
| "jsLess PosInfinity b = False"
| "jsLess NegInfinity b = True"
| "jsLess (Finite a) PosInfinity = True"
| "jsLess (Finite a) (Finite b) = (a < b)"

text \<open>\<^verbatim>\<open>Math.max(a, b)\<close>, which is not a number when either argument is not.\<close>

definition mathMax :: "jsnumber \<Rightarrow> jsnumber \<Rightarrow> jsnumber" where
  "mathMax a b = (if a = NaN \<or> b = NaN then NaN else if jsLess a b then b else a)"

text \<open>\<open>a - b\<close>\<close>

definition jsSub :: "jsnumber \<Rightarrow> jsnumber \<Rightarrow> jsnumber" where
  "jsSub a b = jsAdd a (negate b)"

text \<open>\<open>a <= b\<close>\<close>

definition jsLessEq :: "jsnumber \<Rightarrow> jsnumber \<Rightarrow> bool" where
  "jsLessEq a b \<longleftrightarrow> jsLess a b \<or> (a = b \<and> a \<noteq> NaN)"

text \<open>
  \<^verbatim>\<open>Array.prototype.slice(start, end)\<close> on numbers. An argument that is not a number
  counts as 0, a fraction is cut off toward zero, and the infinities are clamped as the
  integers are.
\<close>

definition clampNumber :: "jsnumber \<Rightarrow> nat \<Rightarrow> nat" where
  "clampNumber v len =
     (case v of
        NaN \<Rightarrow> 0
      | NegInfinity \<Rightarrow> 0
      | PosInfinity \<Rightarrow> len
      | Finite q \<Rightarrow> clampIndex (if 0 \<le> q then \<lfloor>q\<rfloor> else \<lceil>q\<rceil>) len)"

definition sliceNumber :: "'a list \<Rightarrow> jsnumber \<Rightarrow> jsnumber \<Rightarrow> 'a list" where
  "sliceNumber xs start end =
     (let k = clampNumber start (length xs); final = clampNumber end (length xs)
      in take (final - k) (drop k xs))"

section \<open>The fragmenter: chunkWords\<close>

text \<open>
  \<^verbatim>\<open>
  function chunkWords(text: string, targetWords = 1200) {
    const words = text.split(/\s+/).filter(Boolean);
    const chunks: string[] = [];
    for (let i = 0; i < words.length; i += targetWords) {
      chunks.push(words.slice(i, i + targetWords).join(" "));
    }
    return chunks;
  }
  \<close>
  \<open>targetWords\<close> and the index \<open>i\<close> are JavaScript numbers, and nothing in the function
  restricts \<open>targetWords\<close>: it can be a fraction, negative, infinite or not a number. The
  loop has no bound of its own, so it is a partial function: \<open>None\<close> is the loop that
  never ends.
\<close>

definition wordsOf :: "jsstring \<Rightarrow> jsstring list" where
  "wordsOf text = filter (\<lambda>w. w \<noteq> []) (splitSpaces [] text)"

partial_function (option) chunkLoop ::
  "jsstring list \<Rightarrow> jsnumber \<Rightarrow> jsnumber \<Rightarrow> jsstring list \<Rightarrow> jsstring list option" where
  "chunkLoop words targetWords i chunks =
     (if jsLess i (Finite (of_nat (length words)))
      then chunkLoop words targetWords (jsAdd i targetWords)
             (chunks @ [join (js '' '') (sliceNumber words i (jsAdd i targetWords))])
      else Some chunks)"

declare chunkLoop.simps [code]

definition chunkWords :: "jsstring \<Rightarrow> jsnumber \<Rightarrow> jsstring list option" where
  "chunkWords text targetWords = chunkLoop (wordsOf text) targetWords (Finite 0) []"

text \<open>The number of words of a fragment, counted the way the fragmenter counts words.\<close>

definition wordCount :: "jsstring \<Rightarrow> nat" where
  "wordCount fragment = length (wordsOf fragment)"

section \<open>The request handler: parameters and the operative fragments\<close>

text \<open>
  \<^verbatim>\<open>
  const maxFragments = Math.max(1, Number(form.get("maxFragments") || 3));
  const targetWords = Number(form.get("targetWords") || 1200);
  const startFrom = Math.max(1, Number(form.get("startFrom") || 1));
  \<close>
  \<^verbatim>\<open>form.get\<close> answers \<^verbatim>\<open>null\<close> for a field that the form does not have, and the string
  or the file of the field otherwise. \<^verbatim>\<open>null\<close> and the empty string give way to the
  default; \<^verbatim>\<open>Number\<close> of a file is not a number. \<^verbatim>\<open>Number\<close> on strings is a function of
  the language, here the parameter \<open>toNumber\<close>: the handler is modelled for whatever that
  function answers.
\<close>

datatype form_entry = Absent | TextEntry jsstring | FileEntry

record import_params =
  maxFragments :: jsnumber
  targetWords :: jsnumber
  startFrom :: jsnumber

definition formNumber :: "(jsstring \<Rightarrow> jsnumber) \<Rightarrow> form_entry \<Rightarrow> jsnumber \<Rightarrow> jsnumber" where
  "formNumber toNumber field dflt =
     (case field of
        Absent \<Rightarrow> dflt
      | TextEntry s \<Rightarrow> if s = [] then dflt else toNumber s
      | FileEntry \<Rightarrow> NaN)"

definition parseParams ::
  "(jsstring \<Rightarrow> jsnumber) \<Rightarrow> form_entry \<Rightarrow> form_entry \<Rightarrow> form_entry \<Rightarrow> import_params" where
  "parseParams toNumber maxFragmentsField targetWordsField startFromField =
     \<lparr> maxFragments = mathMax (Finite 1) (formNumber toNumber maxFragmentsField (Finite 3)),
       targetWords = formNumber toNumber targetWordsField (Finite 1200),
       startFrom = mathMax (Finite 1) (formNumber toNumber startFromField (Finite 1)) \<rparr>"

text \<open>
  \<^verbatim>\<open>const chunks = allChunks.slice(startFrom - 1, startFrom - 1 + maxFragments);\<close>
  for integer values \<open>sf\<close> and \<open>mf\<close> of \<open>startFrom\<close> and \<open>maxFragments\<close>.
\<close>

definition operativeChunks :: "'a list \<Rightarrow> int \<Rightarrow> int \<Rightarrow> 'a list" where
  "operativeChunks allChunks sf mf = slice allChunks (sf - 1) (sf - 1 + mf)"

text \<open>
  \<^verbatim>\<open>
  const allChunks = chunkWords(combinedText, targetWords);
  const chunks = allChunks.slice(startFrom - 1, startFrom - 1 + maxFragments);
  \<close>
  with the parameters as the handler has parsed them; \<open>None\<close> when \<^verbatim>\<open>chunkWords\<close> does not
  return.
\<close>

definition importChunks :: "jsstring \<Rightarrow> import_params \<Rightarrow> jsstring list option" where
  "importChunks combinedText params =
     (case chunkWords combinedText (targetWords params) of
        None \<Rightarrow> None
      | Some allChunks \<Rightarrow>
          Some (sliceNumber allChunks (jsSub (startFrom params) (Finite 1))
                  (jsAdd (jsSub (startFrom params) (Finite 1)) (maxFragments params))))"
section \<open>The fragment orchestrator\<close>

text \<open>
  \<^verbatim>\<open>
  const lessons: any[] = [];
  let partialError: any = null;
  for (let i = 0; i < chunks.length; i++) {
    const fragmentIndex = startFrom + i;
    try {
        const lessonTitle = `${bookTitle} \<emdash> Fragment ${fragmentIndex}`;
        const lesson = await callOpenAIForLesson(env, chunks[i], lessonTitle);
        lessons.push({ index: fragmentIndex, lesson });
    } catch (e) {
        partialError = { fragment: fragmentIndex, error: String(e) };
        break;
    }
  }
  \<close>
  The external generator \<^verbatim>\<open>callOpenAIForLesson\<close> is a parameter. Its answer may differ
  from one call to the next, so it receives the number of calls made before this one in
  the request, besides the fragment text and the lesson title; it answers \<open>Inr lesson\<close>,
  or \<open>Inl message\<close> when it throws, \<open>message\<close> being \<^verbatim>\<open>String(e)\<close>. The field \<open>calls\<close> is
  not in the source: it records, in order, the fragment index of every call made.
\<close>

type_synonym 'l generator = "nat \<Rightarrow> jsstring \<Rightarrow> jsstring \<Rightarrow> jsstring + 'l"

record 'l fragment_result =
  index :: int
  lesson :: 'l

record partial_error =
  fragment :: int
  error :: jsstring

record 'l orchestrator =
  lessons :: "'l fragment_result list"
  partialError :: "partial_error option"
  calls :: "int list"

text \<open>The decimal form of an integer inside a template literal.\<close>

fun decimalNat :: "nat \<Rightarrow> jsstring" where
  "decimalNat n =
     (if n < 10 then [of_nat (48 + n)] else decimalNat (n div 10) @ [of_nat (48 + n mod 10)])"

declare decimalNat.simps [simp del]

definition decimal :: "int \<Rightarrow> jsstring" where
  "decimal k = (if k < 0 then js ''-'' @ decimalNat (nat (- k)) else decimalNat (nat k))"

definition lessonTitle :: "jsstring \<Rightarrow> int \<Rightarrow> jsstring" where
  "lessonTitle bookTitle fragmentIndex =
     bookTitle @ [0x20, 0x2014, 0x20] @ js ''Fragment '' @ decimal fragmentIndex"

function orchestrateLoop ::
  "'l generator \<Rightarrow> jsstring \<Rightarrow> int \<Rightarrow> jsstring list \<Rightarrow> nat \<Rightarrow> 'l orchestrator
     \<Rightarrow> 'l orchestrator" where
  "orchestrateLoop gen bookTitle sf chunks i st =
     (if i < length chunks then
        (let fragmentIndex = sf + int i;
             called = st\<lparr>calls := calls st @ [fragmentIndex]\<rparr>
         in case gen (length (calls st)) (chunks ! i) (lessonTitle bookTitle fragmentIndex) of
              Inr l \<Rightarrow>
                orchestrateLoop gen bookTitle sf chunks (Suc i)
                  (called\<lparr>lessons := lessons called @ [\<lparr>index = fragmentIndex, lesson = l\<rparr>]\<rparr>)
            | Inl e \<Rightarrow>
                called\<lparr>partialError := Some \<lparr>fragment = fragmentIndex, error = e\<rparr>\<rparr>)
      else st)"
  by pat_completeness auto
termination
  by (relation "measure (\<lambda>(gen, bookTitle, sf, chunks, i, st). length chunks - i)") auto

declare orchestrateLoop.simps [simp del]

definition orchestrate ::
  "'l generator \<Rightarrow> jsstring \<Rightarrow> int \<Rightarrow> jsstring list \<Rightarrow> 'l orchestrator" where
  "orchestrate gen bookTitle sf chunks =
     orchestrateLoop gen bookTitle sf chunks 0 \<lparr>lessons = [], partialError = None, calls = []\<rparr>"

text \<open>\<^verbatim>\<open>status: partialError ? 206 : 200\<close>\<close>

definition responseStatus :: "'l orchestrator \<Rightarrow> nat" where
  "responseStatus st = (if partialError st \<noteq> None then 206 else 200)"


section \<open>Path normalization\<close>

text \<open>
  \<^verbatim>\<open>s.split(sep)\<close> for a separator of one code unit: the pieces between the separators;
  the result is never empty. \<open>cur\<close> is the piece being read.
\<close>

fun splitOn :: "code_unit \<Rightarrow> jsstring \<Rightarrow> jsstring \<Rightarrow> jsstring list" where
  "splitOn sep cur [] = [cur]"
| "splitOn sep cur (c # cs) =
     (if c = sep then cur # splitOn sep [] cs else splitOn sep (cur @ [c]) cs)"

text \<open>
  \<^verbatim>\<open>
  function normalizePath(baseDir: string, href: string): string {
    const clean = href.split("#")[0];
    let full = baseDir + clean;
    const parts = full.split("/").filter(p => p.length > 0);
    const out: string[] = [];
    for (const p of parts) {
      if (p === ".") continue;
      if (p === "..") { out.pop(); continue; }
      out.push(p);
    }
    return out.join("/");
  }
  \<close>
  \<^verbatim>\<open>out.pop()\<close> on an empty array leaves it empty.
\<close>

definition resolveSegment :: "jsstring list \<Rightarrow> jsstring \<Rightarrow> jsstring list" where
  "resolveSegment out p =
     (if p = js ''.'' then out
      else if p = js ''..'' then butlast out
      else out @ [p])"

definition normalizePath :: "jsstring \<Rightarrow> jsstring \<Rightarrow> jsstring" where
  "normalizePath baseDir href =
     (let clean = hd (splitOn 0x23 [] href);
          full = baseDir @ clean;
          parts = filter (\<lambda>p. length p > 0) (splitOn 0x2F [] full);
          out = foldl resolveSegment [] parts
      in join (js ''/'') out)"

text \<open>
  \<^verbatim>\<open>
  const baseDir = opfPath.includes("/")
    ? opfPath.substring(0, opfPath.lastIndexOf("/") + 1)
    : "";
  \<close>
\<close>

definition lastIndexOf :: "jsstring \<Rightarrow> code_unit \<Rightarrow> int" where
  "lastIndexOf s c = (if c \<in> set s then int (length s) - 1 - int (length (takeWhile (\<lambda>x. x \<noteq> c) (rev s))) else - 1)"

definition baseDirOf :: "jsstring \<Rightarrow> jsstring" where
  "baseDirOf opfPath =
     (if 0x2F \<in> set opfPath then take (nat (lastIndexOf opfPath 0x2F + 1)) opfPath else [])"


text \<open>The array \<open>out\<close> of \<^verbatim>\<open>normalizePath\<close>, before it is joined.\<close>

definition segmentsOf :: "jsstring \<Rightarrow> jsstring \<Rightarrow> jsstring list" where
  "segmentsOf baseDir href =
     foldl resolveSegment []
       (filter (\<lambda>p. length p > 0) (splitOn 0x2F [] (baseDir @ hd (splitOn 0x23 [] href))))"

section \<open>Strings: lower case, trim, replace\<close>

text \<open>
  \<^verbatim>\<open>String.prototype.toLowerCase\<close>, code unit by code unit: the letters of ASCII and of
  Latin-1, and the two code points outside ASCII whose lower case contains an ASCII
  letter (U+0130, which becomes \<open>i\<close> followed by U+0307, and the Kelvin sign U+212A, which
  becomes \<open>k\<close>). Other code units are left as they are: the letters of other scripts are
  not lowered by the model. Their lower case is outside ASCII, white space and quotes as
  they are themselves.
\<close>

definition lowerUnit :: "code_unit \<Rightarrow> jsstring" where
  "lowerUnit c =
     (if 0x41 \<le> c \<and> c \<le> 0x5A then [c + 0x20]
      else if 0xC0 \<le> c \<and> c \<le> 0xDE \<and> c \<noteq> 0xD7 then [c + 0x20]
      else if c = 0x130 then [0x69, 0x307]
      else if c = 0x212A then [0x6B]
      else [c])"

definition toLowerCase :: "jsstring \<Rightarrow> jsstring" where
  "toLowerCase s = concat (map lowerUnit s)"

definition trim :: "jsstring \<Rightarrow> jsstring" where
  "trim s = rev (dropWhile isSpace (rev (dropWhile isSpace s)))"

text \<open>
  \<^verbatim>\<open>s.replace(/re/g, r)\<close>. A pattern is given by its matcher: at a position of the
  string, with \<open>left\<close> the text to the left and \<open>rest\<close> the text from the position on,
  the matcher answers \<open>Some n\<close> when the pattern matches the first \<open>n\<close> code units of
  \<open>rest\<close>, as the backtracking search of the regular expression finds it, and \<open>None\<close> when
  it does not match there. The replacement scans from the left, replaces a match and
  goes on after it. No pattern of this program matches the empty string.
\<close>

type_synonym matcher = "jsstring \<Rightarrow> jsstring \<Rightarrow> nat option"

function replaceAll :: "matcher \<Rightarrow> jsstring \<Rightarrow> jsstring \<Rightarrow> jsstring \<Rightarrow> jsstring" where
  "replaceAll m r left [] = []"
| "replaceAll m r left (c # cs) =
     (case m left (c # cs) of
        Some (Suc k) \<Rightarrow> r @ replaceAll m r (left @ take (Suc k) (c # cs)) (drop k cs)
      | _ \<Rightarrow> c # replaceAll m r (left @ [c]) cs)"
  by pat_completeness auto
termination
  by (relation "measure (\<lambda>(m, r, left, rest). length rest)") auto

definition runLength :: "(code_unit \<Rightarrow> bool) \<Rightarrow> jsstring \<Rightarrow> nat" where
  "runLength P s = length (takeWhile P s)"

text \<open>\<^verbatim>\<open>/[...]/\<close>: one code unit of a class.\<close>

definition oneOf :: "(code_unit \<Rightarrow> bool) \<Rightarrow> matcher" where
  "oneOf P left rest = (case rest of [] \<Rightarrow> None | c # _ \<Rightarrow> if P c then Some 1 else None)"

text \<open>\<^verbatim>\<open>/[...]+/\<close>: the longest run of code units of a class, at least one.\<close>

definition someOf :: "(code_unit \<Rightarrow> bool) \<Rightarrow> matcher" where
  "someOf P left rest = (let n = runLength P rest in if 0 < n then Some n else None)"

section \<open>slugify\<close>

text \<open>
  \<^verbatim>\<open>
  function slugify(s: string) {
    return s
      .toLowerCase()
      .trim()
      .replace(/['"]/g, "")
      .replace(/[^a-z0-9]+/g, "_")
      .replace(/^_+|_+$/g, "")
      .slice(0, 80) || "book";
  }
  \<close>
\<close>

definition isStraightQuote :: "code_unit \<Rightarrow> bool" where
  "isStraightQuote c \<longleftrightarrow> c = 0x27 \<or> c = 0x22"

definition isSlugChar :: "code_unit \<Rightarrow> bool" where
  "isSlugChar c \<longleftrightarrow> (0x61 \<le> c \<and> c \<le> 0x7A) \<or> (0x30 \<le> c \<and> c \<le> 0x39)"

text \<open>
  \<^verbatim>\<open>/^_+|_+$/\<close>: a run of underscores at the start of the string, or one that reaches
  its end.
\<close>

definition edgeUnderscores :: matcher where
  "edgeUnderscores left rest =
     (let n = runLength (\<lambda>c. c = 0x5F) rest
      in if 0 < n \<and> (left = [] \<or> n = length rest) then Some n else None)"

definition slugify :: "jsstring \<Rightarrow> jsstring" where
  "slugify s =
     (let lowered = toLowerCase s;
          trimmed = trim lowered;
          unquoted = replaceAll (oneOf isStraightQuote) [] [] trimmed;
          collapsed = replaceAll (someOf (\<lambda>c. \<not> isSlugChar c)) (js ''_'') [] unquoted;
          stripped = replaceAll edgeUnderscores [] [] collapsed;
          cut = take 80 stripped
      in if cut = [] then js ''book'' else cut)"

text \<open>
  The slugification rule in the words of the specification, for a given set of quotes:
  lowercase, trim, strip the quotes, collapse any run of characters outside \<open>[a-z0-9]\<close> to
  a single underscore, trim leading and trailing underscores, truncate to 80 characters,
  default to \<open>book\<close> if the result is empty.
\<close>

fun collapseRuns :: "bool \<Rightarrow> jsstring \<Rightarrow> jsstring" where
  "collapseRuns inRun [] = []"
| "collapseRuns inRun (c # cs) =
     (if isSlugChar c then c # collapseRuns False cs
      else if inRun then collapseRuns True cs
      else 0x5F # collapseRuns True cs)"

definition slugRule :: "(code_unit \<Rightarrow> bool) \<Rightarrow> jsstring \<Rightarrow> jsstring" where
  "slugRule isQuote s =
     (let unquoted = filter (\<lambda>c. \<not> isQuote c) (trim (toLowerCase s));
          collapsed = collapseRuns False unquoted;
          stripped = rev (dropWhile (\<lambda>c. c = 0x5F) (rev (dropWhile (\<lambda>c. c = 0x5F) collapsed)));
          cut = take 80 stripped
      in if cut = [] then js ''book'' else cut)"

text \<open>The straight quotes and the curly quotes U+2018, U+2019, U+201C, U+201D.\<close>

definition isStraightOrCurlyQuote :: "code_unit \<Rightarrow> bool" where
  "isStraightOrCurlyQuote c \<longleftrightarrow> c \<in> {0x27, 0x22, 0x2018, 0x2019, 0x201C, 0x201D}"


section \<open>The archive and the patterns of the EPUB documents\<close>

text \<open>
  The archive is the object that \<^verbatim>\<open>unzipSync\<close> returns: its keys, in the order of
  \<^verbatim>\<open>Object.keys\<close>, each with the text of its entry (the bytes decoded by \<^verbatim>\<open>strFromU8\<close>;
  unzipping and UTF-8 decoding are done by the zip library and are not modelled).
\<close>

type_synonym archive = "(jsstring \<times> jsstring) list"

definition keysOf :: "archive \<Rightarrow> jsstring list" where
  "keysOf files = map fst files"

text \<open>
  The archive is an ordinary object. Reading a key that it does not have gives
  \<^verbatim>\<open>undefined\<close>, unless the key names a property that every object inherits from
  \<^verbatim>\<open>Object.prototype\<close>: then it gives that property, a function or an object, which is
  truthy and is neither a string nor a byte array.
\<close>

definition objectPrototypeNames :: "jsstring list" where
  "objectPrototypeNames =
     [js ''constructor'', js ''hasOwnProperty'', js ''isPrototypeOf'',
      js ''propertyIsEnumerable'', js ''toLocaleString'', js ''toString'', js ''valueOf'',
      js ''__proto__'', js ''__defineGetter__'', js ''__defineSetter__'',
      js ''__lookupGetter__'', js ''__lookupSetter__'']"

datatype import_error = ContainerNotFound | OpfPathNotFound | TypeError

text \<open>
  \<^verbatim>\<open>strFromU8(files[path])\<close>. For a path that is not in the archive the argument is
  \<^verbatim>\<open>undefined\<close>, which the decoder of the library turns into the empty text; for the name
  of an inherited property the argument is a function or an object, which the decoder
  refuses with a TypeError.
\<close>

definition entryText :: "archive \<Rightarrow> jsstring \<Rightarrow> import_error + jsstring" where
  "entryText files path =
     (case map_of files path of
        Some t \<Rightarrow> Inr t
      | None \<Rightarrow> if path \<in> set objectPrototypeNames then Inl TypeError else Inr [])"

text \<open>
  Matching with the flag \<^verbatim>\<open>i\<close>: a letter of the pattern, which is ASCII in every
  pattern here, matches the same ASCII letter in either case and nothing else.
\<close>

definition asciiFold :: "code_unit \<Rightarrow> code_unit" where
  "asciiFold c = (if 0x41 \<le> c \<and> c \<le> 0x5A then c + 0x20 else c)"

definition startsWithCI :: "jsstring \<Rightarrow> jsstring \<Rightarrow> bool" where
  "startsWithCI pat s \<longleftrightarrow>
     length pat \<le> length s \<and> map asciiFold (take (length pat) s) = map asciiFold pat"

definition endsWith :: "jsstring \<Rightarrow> jsstring \<Rightarrow> bool" where
  "endsWith s suffix \<longleftrightarrow>
     length suffix \<le> length s \<and> drop (length s - length suffix) s = suffix"

definition endsWithCI :: "jsstring \<Rightarrow> jsstring \<Rightarrow> bool" where
  "endsWithCI s suffix \<longleftrightarrow>
     length suffix \<le> length s
     \<and> map asciiFold (drop (length s - length suffix) s) = map asciiFold suffix"

text \<open>\<^verbatim>\<open>/\.(xhtml|html|htm)$/i.test(p)\<close>\<close>

definition isTextDocument :: "jsstring \<Rightarrow> bool" where
  "isTextDocument p \<longleftrightarrow>
     endsWithCI p (js ''.xhtml'') \<or> endsWithCI p (js ''.html'') \<or> endsWithCI p (js ''.htm'')"

text \<open>
  \<^verbatim>\<open>s.match(re)\<close> without the flag \<^verbatim>\<open>g\<close>: the pattern is tried at each position from
  the left, and the first match gives the captured group. \<open>groupAt\<close> answers the captured
  group when the pattern matches at the start of its argument.
\<close>

fun firstMatch :: "(jsstring \<Rightarrow> jsstring option) \<Rightarrow> jsstring \<Rightarrow> jsstring option" where
  "firstMatch groupAt [] = groupAt []"
| "firstMatch groupAt (c # cs) =
     (case groupAt (c # cs) of Some g \<Rightarrow> Some g | None \<Rightarrow> firstMatch groupAt cs)"

text \<open>\<^verbatim>\<open>s.match(re)\<close> with the flag \<^verbatim>\<open>g\<close>: all matches from the left, none overlapping.\<close>

function matchAll :: "matcher \<Rightarrow> jsstring \<Rightarrow> jsstring \<Rightarrow> jsstring list" where
  "matchAll m left [] = []"
| "matchAll m left (c # cs) =
     (case m left (c # cs) of
        Some (Suc k) \<Rightarrow>
          take (Suc k) (c # cs) # matchAll m (left @ take (Suc k) (c # cs)) (drop k cs)
      | _ \<Rightarrow> matchAll m (left @ [c]) cs)"
  by pat_completeness auto
termination
  by (relation "measure (\<lambda>(m, left, rest). length rest)") auto

definition dquote :: code_unit where
  "dquote = 0x22"

definition squote :: code_unit where
  "squote = 0x27"

text \<open>
  \<^verbatim>\<open>/full-path="([^"]+)"/i\<close> at the start of \<open>rest\<close>: the literal, then the longest run of
  code units other than the double quote, not empty, then a double quote.
\<close>

definition fullPathAt :: "jsstring \<Rightarrow> jsstring option" where
  "fullPathAt rest =
     (if startsWithCI (js ''full-path='' @ [dquote]) rest then
        (let body = drop 11 rest; v = takeWhile (\<lambda>c. c \<noteq> dquote) body
         in if v \<noteq> [] \<and> length v < length body then Some v else None)
      else None)"

text \<open>
  \<^verbatim>\<open>
  function getAttr(tag: string, name: string): string | null {
    const re = new RegExp(`${name}\\s*=\\s*["']([^"']+)["']`, "i");
    const m = tag.match(re);
    return m ? m[1] : null;
  }
  \<close>
  The names asked for are \<open>id\<close>, \<open>href\<close> and \<open>idref\<close>, which contain no character that
  is special in a pattern.
\<close>

definition isQuote :: "code_unit \<Rightarrow> bool" where
  "isQuote c \<longleftrightarrow> c = dquote \<or> c = squote"

definition attrAt :: "jsstring \<Rightarrow> jsstring \<Rightarrow> jsstring option" where
  "attrAt name rest =
     (if startsWithCI name rest then
        (case dropWhile isSpace (drop (length name) rest) of
           [] \<Rightarrow> None
         | e # afterEq \<Rightarrow>
             if e \<noteq> 0x3D then None
             else (case dropWhile isSpace afterEq of
                     [] \<Rightarrow> None
                   | q # body \<Rightarrow>
                       if \<not> isQuote q then None
                       else (let v = takeWhile (\<lambda>c. \<not> isQuote c) body
                             in if v \<noteq> [] \<and> length v < length body then Some v else None)))
      else None)"

definition getAttr :: "jsstring \<Rightarrow> jsstring \<Rightarrow> jsstring option" where
  "getAttr tag name = firstMatch (attrAt name) tag"

text \<open>
  \<^verbatim>\<open>/<item\b[^>]*>/gi\<close> and \<^verbatim>\<open>/<itemref\b[^>]*>/gi\<close>: the name of the element after
  \<open><\<close>, then a word boundary (the next code unit is not of \<open>[A-Za-z0-9_]\<close>), then
  everything up to the first \<open>>\<close>.
\<close>

definition isWordChar :: "code_unit \<Rightarrow> bool" where
  "isWordChar c \<longleftrightarrow>
     (0x41 \<le> c \<and> c \<le> 0x5A) \<or> (0x61 \<le> c \<and> c \<le> 0x7A) \<or> (0x30 \<le> c \<and> c \<le> 0x39) \<or> c = 0x5F"

definition tagAt :: "jsstring \<Rightarrow> matcher" where
  "tagAt name left rest =
     (if startsWithCI (0x3C # name) rest then
        (case drop (Suc (length name)) rest of
           [] \<Rightarrow> None
         | c # cs \<Rightarrow>
             if isWordChar c \<or> 0x3E \<notin> set (c # cs) then None
             else Some (Suc (length name) + length (takeWhile (\<lambda>x. x \<noteq> 0x3E) (c # cs)) + 1))
      else None)"

section \<open>The container resolver: findOpfPath\<close>

text \<open>
  \<^verbatim>\<open>
  function findOpfPath(files: Record<string, Uint8Array>): string {
    const container = Object.keys(files).find(p =>
      p.toLowerCase().endsWith("meta-inf/container.xml")
    );
    if (!container) throw new Error("container.xml not found");
    const xml = strFromU8(files[container]);
    const match = xml.match(/full-path="([^"]+)"/i);
    if (!match) throw new Error("OPF path not found in container.xml");
    return match[1];
  }
  \<close>
\<close>

definition isContainer :: "jsstring \<Rightarrow> bool" where
  "isContainer p \<longleftrightarrow> endsWith (toLowerCase p) (js ''meta-inf/container.xml'')"

definition findOpfPath :: "archive \<Rightarrow> import_error + jsstring" where
  "findOpfPath files =
     (case find isContainer (keysOf files) of
        None \<Rightarrow> Inl ContainerNotFound
      | Some container \<Rightarrow>
          (if container = [] then Inl ContainerNotFound
           else case entryText files container of
                  Inl e \<Rightarrow> Inl e
                | Inr xml \<Rightarrow>
                    (case firstMatch fullPathAt xml of
                       None \<Rightarrow> Inl OpfPathNotFound
                     | Some path \<Rightarrow> Inr path)))"


section \<open>The package parser: extractSpineHtmlPaths\<close>

text \<open>
  \<^verbatim>\<open>manifestMap\<close> is an ordinary object, \<^verbatim>\<open>{}\<close>, used as a dictionary. Reading a key
  that was not stored gives \<^verbatim>\<open>undefined\<close>, unless the key names an inherited property:
  then it gives that property, which is truthy and is not a string. Storing a string
  under \<^verbatim>\<open>__proto__\<close> stores nothing.
\<close>

datatype js_value = Undefined | Text jsstring | Inherited

definition getProperty :: "(jsstring \<rightharpoonup> jsstring) \<Rightarrow> jsstring \<Rightarrow> js_value" where
  "getProperty obj key =
     (case obj key of
        Some v \<Rightarrow> Text v
      | None \<Rightarrow> if key \<in> set objectPrototypeNames then Inherited else Undefined)"

definition setProperty ::
  "(jsstring \<rightharpoonup> jsstring) \<Rightarrow> jsstring \<Rightarrow> jsstring \<Rightarrow> (jsstring \<rightharpoonup> jsstring)" where
  "setProperty obj key v = (if key = js ''__proto__'' then obj else obj(key \<mapsto> v))"

text \<open>
  \<^verbatim>\<open>
  const manifestMap: Record<string, string> = {};
  const itemTags = opfXml.match(/<item\b[^>]*>/gi) || [];
  for (const tag of itemTags) {
    const id = getAttr(tag, "id");
    const href = getAttr(tag, "href");
    if (id && href) manifestMap[id] = href;
  }
  \<close>
\<close>

definition addItem :: "(jsstring \<rightharpoonup> jsstring) \<Rightarrow> jsstring \<Rightarrow> (jsstring \<rightharpoonup> jsstring)" where
  "addItem manifestMap tag =
     (case (getAttr tag (js ''id''), getAttr tag (js ''href'')) of
        (Some ident, Some href) \<Rightarrow> setProperty manifestMap ident href
      | _ \<Rightarrow> manifestMap)"

definition manifestOf :: "jsstring \<Rightarrow> (jsstring \<rightharpoonup> jsstring)" where
  "manifestOf opfXml = foldl addItem Map.empty (matchAll (tagAt (js ''item'')) [] opfXml)"

text \<open>
  \<^verbatim>\<open>
  const spinePaths: string[] = [];
  const itemrefTags = opfXml.match(/<itemref\b[^>]*>/gi) || [];
  for (const tag of itemrefTags) {
    const idref = getAttr(tag, "idref");
    if (!idref) continue;
    const href = manifestMap[idref];
    if (!href) continue;
    const fullPath = normalizePath(baseDir, href);
    if (!/\.(xhtml|html|htm)$/i.test(fullPath)) continue;
    if (files[fullPath]) spinePaths.push(fullPath);
  }
  \<close>
  \<^verbatim>\<open>normalizePath\<close> calls \<^verbatim>\<open>href.split\<close>: for an inherited property, which has no such
  method, this throws a TypeError, and the loop ends there. \<^verbatim>\<open>files\<close> is an ordinary
  object too; its entries are byte arrays, which are truthy.
\<close>

definition hasEntry :: "archive \<Rightarrow> jsstring \<Rightarrow> bool" where
  "hasEntry files path \<longleftrightarrow> path \<in> set (keysOf files) \<or> path \<in> set objectPrototypeNames"

fun spineLoop ::
  "archive \<Rightarrow> (jsstring \<rightharpoonup> jsstring) \<Rightarrow> jsstring \<Rightarrow> jsstring list \<Rightarrow> jsstring list
     \<Rightarrow> import_error + jsstring list" where
  "spineLoop files manifestMap baseDir [] spinePaths = Inr spinePaths"
| "spineLoop files manifestMap baseDir (tag # tags) spinePaths =
     (case getAttr tag (js ''idref'') of
        None \<Rightarrow> spineLoop files manifestMap baseDir tags spinePaths
      | Some idref \<Rightarrow>
          (case getProperty manifestMap idref of
             Undefined \<Rightarrow> spineLoop files manifestMap baseDir tags spinePaths
           | Inherited \<Rightarrow> Inl TypeError
           | Text href \<Rightarrow>
               (let fullPath = normalizePath baseDir href
                in if \<not> isTextDocument fullPath
                   then spineLoop files manifestMap baseDir tags spinePaths
                   else if hasEntry files fullPath
                   then spineLoop files manifestMap baseDir tags (spinePaths @ [fullPath])
                   else spineLoop files manifestMap baseDir tags spinePaths)))"

text \<open>
  \<^verbatim>\<open>Array.prototype.sort(compare)\<close>: a stable sort. \<^verbatim>\<open>localeCompare\<close> is the collation of
  the host, a parameter of the model: a negative number, zero or a positive number.
\<close>

fun insertBy :: "('a \<Rightarrow> 'a \<Rightarrow> int) \<Rightarrow> 'a \<Rightarrow> 'a list \<Rightarrow> 'a list" where
  "insertBy cmp x [] = [x]"
| "insertBy cmp x (y # ys) = (if cmp x y \<le> 0 then x # y # ys else y # insertBy cmp x ys)"

definition sortBy :: "('a \<Rightarrow> 'a \<Rightarrow> int) \<Rightarrow> 'a list \<Rightarrow> 'a list" where
  "sortBy cmp xs = foldr (insertBy cmp) xs []"

text \<open>
  \<^verbatim>\<open>
  function extractSpineHtmlPaths(files, opfPath): string[] {
    const opfXml = strFromU8(files[opfPath]);
    const baseDir = ...;
    ... the two loops ...
    if (spinePaths.length === 0) {
      const htmlPaths = Object.keys(files)
        .filter(p => /\.(xhtml|html|htm)$/i.test(p))
        .sort((a,b) => a.localeCompare(b));
      return htmlPaths;
    }
    return spinePaths;
  }
  \<close>
\<close>

definition spinePathsOf :: "archive \<Rightarrow> jsstring \<Rightarrow> import_error + jsstring list" where
  "spinePathsOf files opfPath =
     (case entryText files opfPath of
        Inl e \<Rightarrow> Inl e
      | Inr opfXml \<Rightarrow>
          spineLoop files (manifestOf opfXml) (baseDirOf opfPath)
            (matchAll (tagAt (js ''itemref'')) [] opfXml) [])"

definition fallbackPaths :: "(jsstring \<Rightarrow> jsstring \<Rightarrow> int) \<Rightarrow> archive \<Rightarrow> jsstring list" where
  "fallbackPaths localeCompare files = sortBy localeCompare (filter isTextDocument (keysOf files))"

definition extractSpineHtmlPaths ::
  "(jsstring \<Rightarrow> jsstring \<Rightarrow> int) \<Rightarrow> archive \<Rightarrow> jsstring \<Rightarrow> import_error + jsstring list" where
  "extractSpineHtmlPaths localeCompare files opfPath =
     (case spinePathsOf files opfPath of
        Inl e \<Rightarrow> Inl e
      | Inr spinePaths \<Rightarrow>
          if length spinePaths = 0 then Inr (fallbackPaths localeCompare files)
          else Inr spinePaths)"

text \<open>
  Byte-wise lexicographic order of paths, and a collation that compares letters without
  regard to case, as the collations of ICU do at their first level.
\<close>

fun bytewiseLess :: "jsstring \<Rightarrow> jsstring \<Rightarrow> bool" where
  "bytewiseLess xs [] = False"
| "bytewiseLess [] (y # ys) = True"
| "bytewiseLess (x # xs) (y # ys) = (x < y \<or> (x = y \<and> bytewiseLess xs ys))"

definition bytewiseLe :: "jsstring \<Rightarrow> jsstring \<Rightarrow> bool" where
  "bytewiseLe a b \<longleftrightarrow> a = b \<or> bytewiseLess a b"

definition caseBlindCompare :: "jsstring \<Rightarrow> jsstring \<Rightarrow> int" where
  "caseBlindCompare a b =
     (if bytewiseLess (map asciiFold a) (map asciiFold b) then - 1
      else if bytewiseLess (map asciiFold b) (map asciiFold a) then 1
      else 0)"

text \<open>Sample documents: a string in double quotes, in single quotes.\<close>

definition dq :: "string \<Rightarrow> jsstring" where
  "dq s = dquote # js s @ [dquote]"

definition sq :: "string \<Rightarrow> jsstring" where
  "sq s = squote # js s @ [squote]"


section \<open>The markup stripper: stripHtml\<close>

text \<open>
  \<^verbatim>\<open>
  function stripHtml(html: string) {
    return html
      .replace(/<script[\s\S]*?<\/script>/gi, " ")
      .replace(/<style[\s\S]*?<\/style>/gi, " ")
      .replace(/<\/(p|div|br|li|h1|h2|h3|h4|h5|h6)>/gi, "\n")
      .replace(/<br\s*\/?>/gi, "\n")
      .replace(/<[^>]+>/g, " ")
      .replace(/&nbsp;/g, " ")
      .replace(/&amp;/g, "&")
      .replace(/&lt;/g, "<")
      .replace(/&gt;/g, ">")
      .replace(/&quot;/g, '"')
      .replace(/&#39;/g, "'")
      .replace(/\s+\n/g, "\n")
      .replace(/\n\s+/g, "\n")
      .replace(/[ \t]+/g, " ")
      .replace(/\n{3,}/g, "\n\n")
      .trim();
  }
  \<close>
  Each pattern is a matcher.
\<close>

text \<open>A literal pattern, without flags.\<close>

definition literal :: "jsstring \<Rightarrow> matcher" where
  "literal pat left rest =
     (if length pat \<le> length rest \<and> take (length pat) rest = pat then Some (length pat)
      else None)"

text \<open>The first position at which a literal occurs, with the flag \<^verbatim>\<open>i\<close>.\<close>

fun indexOfCI :: "jsstring \<Rightarrow> jsstring \<Rightarrow> nat option" where
  "indexOfCI pat [] = (if startsWithCI pat [] then Some 0 else None)"
| "indexOfCI pat (c # cs) =
     (if startsWithCI pat (c # cs) then Some 0 else map_option Suc (indexOfCI pat cs))"

text \<open>
  \<^verbatim>\<open>/<script[\s\S]*?<\/script>/gi\<close>, and the same for \<open>style\<close>: the opening, then as
  little as possible up to the first closing tag.
\<close>

definition elementAt :: "jsstring \<Rightarrow> matcher" where
  "elementAt name left rest =
     (if startsWithCI (0x3C # name) rest then
        (case indexOfCI (js ''</'' @ name @ js ''>'') (drop (Suc (length name)) rest) of
           None \<Rightarrow> None
         | Some k \<Rightarrow> Some (Suc (length name) + k + (length name + 3)))
      else None)"

text \<open>\<^verbatim>\<open>/<\/(p|div|br|li|h1|h2|h3|h4|h5|h6)>/gi\<close>\<close>

definition blockNames :: "jsstring list" where
  "blockNames = [js ''p'', js ''div'', js ''br'', js ''li'',
                 js ''h1'', js ''h2'', js ''h3'', js ''h4'', js ''h5'', js ''h6'']"

definition closingBlockAt :: matcher where
  "closingBlockAt left rest =
     (case find (\<lambda>name. startsWithCI (js ''</'' @ name @ js ''>'') rest) blockNames of
        None \<Rightarrow> None
      | Some name \<Rightarrow> Some (length name + 3))"

text \<open>\<^verbatim>\<open>/<br\s*\/?>/gi\<close>\<close>

definition lineBreakAt :: matcher where
  "lineBreakAt left rest =
     (if startsWithCI (js ''<br'') rest then
        (let n = runLength isSpace (drop 3 rest)
         in case drop (3 + n) rest of
              [] \<Rightarrow> None
            | c # cs \<Rightarrow>
                if c = 0x3E then Some (3 + n + 1)
                else if c = 0x2F \<and> take 1 cs = [0x3E] then Some (3 + n + 2)
                else None)
      else None)"

text \<open>
  \<^verbatim>\<open>/<[^>]+>/g\<close>: a \<open><\<close>, the longest run of code units other than \<open>>\<close>, not empty,
  and a \<open>>\<close>.
\<close>

definition anyTagAt :: matcher where
  "anyTagAt left rest =
     (case rest of
        [] \<Rightarrow> None
      | c # body \<Rightarrow>
          (let n = runLength (\<lambda>x. x \<noteq> 0x3E) body
           in if c = 0x3C \<and> 0 < n \<and> n < length body then Some (n + 2) else None))"

text \<open>
  \<^verbatim>\<open>/\s+\n/g\<close>: in the run of white space at the position, everything up to its last
  line feed, which must not be its first code unit.
\<close>

definition spacesNewlineAt :: matcher where
  "spacesNewlineAt left rest =
     (let k = lastIndexOf (takeWhile isSpace rest) 0x0A
      in if 1 \<le> k then Some (nat k + 1) else None)"

text \<open>\<^verbatim>\<open>/\n\s+/g\<close>\<close>

definition newlineSpacesAt :: matcher where
  "newlineSpacesAt left rest =
     (case rest of
        [] \<Rightarrow> None
      | c # cs \<Rightarrow>
          (let n = runLength isSpace cs
           in if c = 0x0A \<and> 0 < n then Some (n + 1) else None))"

text \<open>\<^verbatim>\<open>/\n{3,}/g\<close>\<close>

definition newlinesAt :: matcher where
  "newlinesAt left rest =
     (let n = runLength (\<lambda>c. c = 0x0A) rest in if 3 \<le> n then Some n else None)"

text \<open>The first five replacements: the text with the tags stripped.\<close>

definition stripTags :: "jsstring \<Rightarrow> jsstring" where
  "stripTags html =
     (let s1 = replaceAll (elementAt (js ''script'')) (js '' '') [] html;
          s2 = replaceAll (elementAt (js ''style'')) (js '' '') [] s1;
          s3 = replaceAll closingBlockAt [0x0A] [] s2;
          s4 = replaceAll lineBreakAt [0x0A] [] s3
      in replaceAll anyTagAt (js '' '') [] s4)"

text \<open>The entities, in the order of the source.\<close>

definition decodeEntities :: "jsstring \<Rightarrow> jsstring" where
  "decodeEntities s5 =
     (let s6 = replaceAll (literal (js ''&nbsp;'')) (js '' '') [] s5;
          s7 = replaceAll (literal (js ''&amp;'')) (js ''&'') [] s6;
          s8 = replaceAll (literal (js ''&lt;'')) (js ''<'') [] s7;
          s9 = replaceAll (literal (js ''&gt;'')) (js ''>'') [] s8;
          s10 = replaceAll (literal (js ''&quot;'')) [dquote] [] s9
      in replaceAll (literal (js ''&#39;'')) [squote] [] s10)"

text \<open>The white space.\<close>

definition normalizeSpace :: "jsstring \<Rightarrow> jsstring" where
  "normalizeSpace s11 =
     (let s12 = replaceAll spacesNewlineAt [0x0A] [] s11;
          s13 = replaceAll newlineSpacesAt [0x0A] [] s12;
          s14 = replaceAll (someOf (\<lambda>c. c = 0x20 \<or> c = 0x09)) (js '' '') [] s13;
          s15 = replaceAll newlinesAt [0x0A, 0x0A] [] s14
      in trim s15)"

definition stripHtml :: "jsstring \<Rightarrow> jsstring" where
  "stripHtml html = normalizeSpace (decodeEntities (stripTags html))"

text \<open>
  The text after the first seven replacements: the tags stripped and \<^verbatim>\<open>&nbsp;\<close> and
  \<^verbatim>\<open>&amp;\<close> decoded, \<^verbatim>\<open>&lt;\<close> and \<^verbatim>\<open>&gt;\<close> not yet.
\<close>

definition ampDecoded :: "jsstring \<Rightarrow> jsstring" where
  "ampDecoded html =
     replaceAll (literal (js ''&amp;'')) (js ''&'') []
       (replaceAll (literal (js ''&nbsp;'')) (js '' '') [] (stripTags html))"

text \<open>A literal occurs somewhere in a text.\<close>

fun occurs :: "jsstring \<Rightarrow> jsstring \<Rightarrow> bool" where
  "occurs pat [] = (pat = [])"
| "occurs pat (c # cs) = (literal pat [] (c # cs) \<noteq> None \<or> occurs pat cs)"

text \<open>
  Raw tag syntax, as the pattern \<^verbatim>\<open>/<[^>]+>/\<close> of the stripper itself finds it: somewhere
  in the text a \<open><\<close>, a body of at least one code unit without \<open>>\<close>, and a \<open>>\<close>.
\<close>

fun hasRawTag :: "jsstring \<Rightarrow> bool" where
  "hasRawTag [] = False"
| "hasRawTag (c # cs) = (anyTagAt [] (c # cs) \<noteq> None \<or> hasRawTag cs)"


section \<open>Properties of slice\<close>


section \<open>Properties of the numbers\<close>

lemma pow2_pos: "0 < pow2 e"
  by (simp add: pow2_def)

lemma pow2_nat: "pow2 (int n) = 2 ^ n"
  by (simp add: pow2_def)

lemma pow2_nonpos: "e \<le> 0 \<Longrightarrow> pow2 e = 1 / 2 ^ nat (- e)"
  by (cases "e = 0") (simp_all add: pow2_def)

lemma bitLength_lower: "0 < n \<Longrightarrow> 2 ^ (bitLength n - 1) \<le> n"
proof (induction n rule: bitLength.induct)
  case (1 n)
  show ?case
  proof (cases "n div 2 = 0")
    case True
    then have "bitLength (n div 2) = 0" by (simp add: bitLength.simps)
    then show ?thesis using "1.prems" by (subst bitLength.simps) simp
  next
    case False
    then have pos: "0 < n div 2" using "1.prems" by simp
    then have "bitLength (n div 2) = Suc (bitLength (n div 2 div 2))"
      by (subst bitLength.simps) simp
    then obtain k where k: "bitLength (n div 2) = Suc k" by blast
    have "2 ^ k \<le> n div 2" using "1.IH" pos "1.prems" k by simp
    then have "2 * 2 ^ k \<le> n" by simp
    then show ?thesis using "1.prems" k by (subst bitLength.simps) simp
  qed
qed

lemma bitLength_upper: "0 \<le> n \<Longrightarrow> n < 2 ^ bitLength n"
proof (induction n rule: bitLength.induct)
  case (1 n)
  show ?case
  proof (cases "n \<le> 0")
    case True
    then show ?thesis using "1.prems" by (subst bitLength.simps) simp
  next
    case False
    then have "n div 2 < 2 ^ bitLength (n div 2)" using "1.IH" by simp
    then have "n < 2 * 2 ^ bitLength (n div 2)" by simp
    then show ?thesis using False by (subst bitLength.simps) simp
  qed
qed

lemma roundHalfEven_lower: "of_int m \<le> x \<Longrightarrow> m \<le> roundHalfEven x"
proof -
  assume a: "of_int m \<le> x"
  define n where "n = \<lfloor>x + 1 / 2\<rfloor>"
  have r: "roundHalfEven x = (if of_int n = x + 1 / 2 \<and> odd n then n - 1 else n)"
    by (simp add: roundHalfEven_def n_def Let_def)
  have mn: "m \<le> n" unfolding n_def using a by (simp add: le_floor_iff)
  show ?thesis
  proof (cases "of_int n = x + 1 / 2 \<and> odd n")
    case True
    then have "of_int m < (of_int n :: rat)" using a by simp
    then have "m < n" by simp
    then show ?thesis using True r by simp
  next
    case False
    then have "roundHalfEven x = n" unfolding r by (rule if_not_P)
    then show ?thesis using mn by simp
  qed
qed

lemma roundHalfEven_int: "roundHalfEven (of_int m) = m"
proof -
  have "\<lfloor>of_int m + (1 / 2 :: rat)\<rfloor> = m" by linarith
  then show ?thesis by (simp add: roundHalfEven_def)
qed

lemma roundPositive_lower:
  assumes n: "0 \<le> n" "n \<le> 2 ^ 53" and q: "of_int n \<le> q" "0 < q"
  shows "roundPositive q = PosInfinity \<or> (\<exists>r. roundPositive q = Finite r \<and> of_int n \<le> r)"
proof -
  define e where "e = max (exponentOf q) (- 1022)"
  define ulp where "ulp = pow2 (e - 52)"
  define r where "r = of_int (roundHalfEven (q / ulp)) * ulp"
  have rp: "roundPositive q = (if pow2 1024 \<le> r then PosInfinity else Finite r)"
    by (simp add: roundPositive_def Let_def e_def ulp_def r_def)
  have ulp: "0 < ulp" by (simp add: ulp_def pow2_pos)
  have "of_int n \<le> r"
  proof (cases "e \<le> 52")
    case True
    define k where "k = nat (52 - e)"
    have u: "ulp = 1 / 2 ^ k" using True by (simp add: ulp_def pow2_nonpos k_def)
    have "of_int (n * 2 ^ k) \<le> q / ulp" using q(1) by (simp add: u)
    then have "n * 2 ^ k \<le> roundHalfEven (q / ulp)" by (rule roundHalfEven_lower)
    then have "(of_int (n * 2 ^ k) :: rat) \<le> of_int (roundHalfEven (q / ulp))"
      by (simp only: of_int_le_iff)
    then have "(of_int (n * 2 ^ k) :: rat) * ulp \<le> r"
      unfolding r_def using ulp by (simp only: mult_le_cancel_right_pos)
    then show ?thesis by (simp add: u)
  next
    case False
    then have e: "e = exponentOf q" "52 < e" by (simp_all add: e_def max_def split: if_splits)
    have q1: "1 \<le> q"
    proof (rule ccontr)
      assume "\<not> 1 \<le> q"
      then have "exponentOf q \<le> 0" by (simp add: exponentOf_def)
      with e show False by simp
    qed
    then have fl: "0 < \<lfloor>q\<rfloor>" by simp
    have ee: "e = int (bitLength \<lfloor>q\<rfloor>) - 1" using q1 e by (simp add: exponentOf_def)
    then have "nat e = bitLength \<lfloor>q\<rfloor> - 1" by simp
    with bitLength_lower [OF fl] have "2 ^ nat e \<le> \<lfloor>q\<rfloor>" by simp
    then have "(of_int (2 ^ nat e) :: rat) \<le> of_int \<lfloor>q\<rfloor>" by (simp only: of_int_le_iff)
    then have "(of_int (2 ^ nat e) :: rat) \<le> q"
      using of_int_floor_le [of q] by (rule order_trans)
    then have lo: "(2 :: rat) ^ nat e \<le> q" by simp
    define k where "k = nat (e - 52)"
    have u: "ulp = 2 ^ k" using e by (simp add: ulp_def pow2_def k_def)
    have ke: "nat e = 52 + k" using e by (simp add: k_def)
    have "(2 :: rat) ^ 52 * 2 ^ k \<le> q" using lo by (simp add: ke power_add)
    then have "of_int (2 ^ 52) \<le> q / ulp" by (simp add: u pos_le_divide_eq)
    then have "2 ^ 52 \<le> roundHalfEven (q / ulp)" by (rule roundHalfEven_lower)
    then have "(of_int (2 ^ 52) :: rat) \<le> of_int (roundHalfEven (q / ulp))"
      by (simp only: of_int_le_iff)
    then have "(of_int (2 ^ 52) :: rat) * ulp \<le> r"
      unfolding r_def using ulp by (simp only: mult_le_cancel_right_pos)
    then have big: "(2 :: rat) ^ 52 * 2 ^ k \<le> r" by (simp add: u)
    have "1 \<le> k" using e by (simp add: k_def)
    then have "(2 :: rat) ^ 1 \<le> 2 ^ k" by (intro power_increasing) simp_all
    then have "(2 :: rat) ^ 52 * 2 ^ 1 \<le> 2 ^ 52 * 2 ^ k" by (intro mult_left_mono) simp_all
    then have "(2 :: rat) ^ 53 \<le> r" using big by simp
    moreover have "(of_int n :: rat) \<le> of_int (2 ^ 53)" using n(2) by (simp only: of_int_le_iff)
    ultimately show ?thesis by simp
  qed
  then show ?thesis using rp by simp
qed

text \<open>Rounding does not go below an integer up to \<open>2 ^ 53\<close> that the exact value reaches.\<close>

lemma roundDouble_lower:
  assumes "0 \<le> n" "n \<le> 2 ^ 53" "of_int n \<le> q"
  shows "roundDouble q = PosInfinity \<or> (\<exists>r. roundDouble q = Finite r \<and> of_int n \<le> r)"
proof (cases "q = 0")
  case True
  then show ?thesis using assms by (simp add: roundDouble_def)
next
  case False
  then have "0 < q" using assms by simp
  then show ?thesis using roundPositive_lower [OF assms(1,2,3)] by (simp add: roundDouble_def)
qed

lemma roundPositive_nonneg:
  assumes "0 < q"
  shows "roundPositive q = PosInfinity \<or> (\<exists>r. roundPositive q = Finite r \<and> 0 \<le> r)"
  using roundPositive_lower [of 0 q] assms by simp

text \<open>Rounding keeps the sign.\<close>

lemma roundDouble_nonpos:
  assumes "q \<le> 0"
  shows "roundDouble q = NegInfinity \<or> (\<exists>r. roundDouble q = Finite r \<and> r \<le> 0)"
proof (cases "q = 0")
  case True
  then show ?thesis by (simp add: roundDouble_def)
next
  case False
  then have "0 < - q" using assms by simp
  from roundPositive_nonneg [OF this] show ?thesis
    using False assms by (auto simp: roundDouble_def negate_def)
qed

text \<open>The integers up to \<open>2 ^ 53\<close> are doubles.\<close>

lemma roundDouble_int:
  assumes "0 \<le> n" "n \<le> 2 ^ 53"
  shows "roundDouble (of_int n) = Finite (of_int n)"
proof (cases "n = 0")
  case True
  then show ?thesis by (simp add: roundDouble_def)
next
  case False
  then have pos: "0 < n" using assms by simp
  define q :: rat where "q = of_int n"
  define e where "e = max (exponentOf q) (- 1022)"
  define ulp where "ulp = pow2 (e - 52)"
  define r where "r = of_int (roundHalfEven (q / ulp)) * ulp"
  have rp: "roundPositive q = (if pow2 1024 \<le> r then PosInfinity else Finite r)"
    by (simp add: roundPositive_def Let_def e_def ulp_def r_def)
  have q1: "1 \<le> q" using pos by (simp add: q_def)
  have fl: "\<lfloor>q\<rfloor> = n" by (simp add: q_def)
  have ee: "e = int (bitLength n) - 1" using q1 by (simp add: e_def exponentOf_def fl)
  have req: "r = q"
  proof (cases "e \<le> 52")
    case True
    define k where "k = nat (52 - e)"
    have u: "ulp = 1 / 2 ^ k" using True by (simp add: ulp_def pow2_nonpos k_def)
    have "q / ulp = of_int (n * 2 ^ k)" by (simp add: u q_def)
    then have "roundHalfEven (q / ulp) = n * 2 ^ k" by (simp only: roundHalfEven_int)
    then show ?thesis by (simp add: r_def u q_def)
  next
    case False
    then have "53 \<le> bitLength n - 1" using ee by simp
    then have "(2 :: int) ^ 53 \<le> 2 ^ (bitLength n - 1)" by (intro power_increasing) simp_all
    with bitLength_lower [OF pos] have "2 ^ 53 \<le> n" by simp
    with assms have n53: "n = 2 ^ 53" by simp
    have "n < 2 ^ bitLength n" using bitLength_upper [of n] assms by simp
    then have "(2 :: int) ^ 53 < 2 ^ bitLength n" using n53 by simp
    then have "53 < bitLength n" by (simp only: power_strict_increasing_iff) 
    moreover have "\<not> 55 \<le> bitLength n"
    proof
      assume "55 \<le> bitLength n"
      then have "54 \<le> bitLength n - 1" by simp
      then have "(2 :: int) ^ 54 \<le> 2 ^ (bitLength n - 1)" by (intro power_increasing) simp_all
      with bitLength_lower [OF pos] n53 show False by simp
    qed
    ultimately have "bitLength n = 54" by simp
    then have "e = 53" using ee by simp
    then have u: "ulp = 2" by (simp add: ulp_def pow2_def)
    have "q / ulp = of_int (2 ^ 52)" by (simp add: u q_def n53)
    then have "roundHalfEven (q / ulp) = 2 ^ 52" by (simp only: roundHalfEven_int)
    then show ?thesis by (simp add: r_def u q_def n53)
  qed
  have "q \<le> of_int (2 ^ 53)" unfolding q_def using assms(2) by (simp only: of_int_le_iff)
  then have "\<not> pow2 1024 \<le> r" by (simp add: req pow2_def)
  then show ?thesis using rp req pos by (simp add: roundDouble_def q_def)
qed

section \<open>Properties of the fragmenter\<close>

lemma splitSpaces_no_space:
  "\<forall>c\<in>set cur. \<not> isSpace c \<Longrightarrow> \<forall>w\<in>set (splitSpaces cur s). \<forall>c\<in>set w. \<not> isSpace c"
proof (induction cur s rule: splitSpaces.induct)
  case (1 cur)
  then show ?case by simp
next
  case (2 cur c cs)
  show ?case
  proof (cases "isSpace c")
    case True
    from "2.IH"(1) [OF True]
    have "\<forall>w\<in>set (splitSpaces [] (dropWhile isSpace cs)). \<forall>c\<in>set w. \<not> isSpace c"
      by simp
    with True "2.prems" show ?thesis by simp
  next
    case False
    from "2.IH"(2) [OF False] "2.prems" False
    have "\<forall>w\<in>set (splitSpaces (cur @ [c]) cs). \<forall>c\<in>set w. \<not> isSpace c"
      by simp
    with False show ?thesis by simp
  qed
qed

lemma wordsOf_proper:
  "w \<in> set (wordsOf text) \<Longrightarrow> w \<noteq> [] \<and> (\<forall>c\<in>set w. \<not> isSpace c)"
  using splitSpaces_no_space [of "[]" "text"] by (auto simp: wordsOf_def)

lemma splitSpaces_word:
  "\<forall>c\<in>set w. \<not> isSpace c \<Longrightarrow> splitSpaces cur (w @ rest) = splitSpaces (cur @ w) rest"
  by (induction w arbitrary: cur) auto

lemma join_starts:
  "ws \<noteq> [] \<Longrightarrow> \<forall>w\<in>set ws. w \<noteq> [] \<and> (\<forall>c\<in>set w. \<not> isSpace c) \<Longrightarrow>
     \<exists>c cs. join sep ws = c # cs \<and> \<not> isSpace c"
proof (cases ws)
  case Nil
  assume "ws \<noteq> []" with Nil show ?thesis by simp
next
  case (Cons w rest)
  assume p: "\<forall>w\<in>set ws. w \<noteq> [] \<and> (\<forall>c\<in>set w. \<not> isSpace c)"
  with Cons obtain c cs where w: "w = c # cs" "\<not> isSpace c" by (cases w) auto
  show ?thesis using Cons w by (cases rest) auto
qed

lemma splitSpaces_join:
  "ws \<noteq> [] \<Longrightarrow> \<forall>w\<in>set ws. w \<noteq> [] \<and> (\<forall>c\<in>set w. \<not> isSpace c) \<Longrightarrow>
     splitSpaces cur (join (js '' '') ws) = (cur @ hd ws) # tl ws"
proof (induction ws arbitrary: cur)
  case Nil
  then show ?case by simp
next
  case (Cons w rest)
  show ?case
  proof (cases rest)
    case Nil
    with Cons.prems show ?thesis
      using splitSpaces_word [of w cur "[]"] by simp
  next
    case (Cons w' rest')
    have proper: "\<forall>w\<in>set rest. w \<noteq> [] \<and> (\<forall>c\<in>set w. \<not> isSpace c)"
      using Cons.prems by simp
    have ne: "rest \<noteq> []" using Cons by simp
    obtain c cs where st: "join (js '' '') rest = c # cs" "\<not> isSpace c"
      using join_starts [OF ne proper] by blast
    have sp: "js '' '' = [0x20]" "isSpace 0x20" by (simp_all add: js_def isSpace_def)
    have "splitSpaces cur (join (js '' '') (w # rest))
        = splitSpaces (cur @ w) (0x20 # join (js '' '') rest)"
      using Cons Cons.prems splitSpaces_word [of w cur] by (simp add: sp)
    also have "\<dots> = (cur @ w) # splitSpaces [] (join (js '' '') rest)"
      using st sp by simp
    also have "\<dots> = (cur @ w) # rest"
      using Cons.IH [OF ne proper, of "[]"] ne by simp
    finally show ?thesis by simp
  qed
qed

lemma wordsOf_join:
  assumes "\<forall>w\<in>set ws. w \<noteq> [] \<and> (\<forall>c\<in>set w. \<not> isSpace c)"
  shows "wordsOf (join (js '' '') ws) = ws"
proof (cases "ws = []")
  case True
  then show ?thesis by (simp add: wordsOf_def)
next
  case False
  have "filter (\<lambda>w. w \<noteq> []) ws = ws" using assms by (simp add: filter_id_conv)
  then show ?thesis
    using splitSpaces_join [OF False assms, of "[]"] False
    by (simp add: wordsOf_def)
qed

lemma wordCount_window:
  "wordCount (join (js '' '') (take n (drop i (wordsOf text)))) = min n (length (wordsOf text) - i)"
proof -
  have "\<forall>w\<in>set (take n (drop i (wordsOf text))). w \<noteq> [] \<and> (\<forall>c\<in>set w. \<not> isSpace c)"
    using wordsOf_proper by (meson in_set_dropD in_set_takeD)
  then show ?thesis by (simp add: wordCount_def wordsOf_join min.commute)
qed

lemma jsLessEq_one: "jsLessEq (Finite 1) t \<longleftrightarrow> t = PosInfinity \<or> (\<exists>r. t = Finite r \<and> 1 \<le> r)"
  by (cases t) (auto simp: jsLessEq_def)

lemma jsLessEq_zero: "jsLessEq t (Finite 0) \<longleftrightarrow> t = NegInfinity \<or> (\<exists>r. t = Finite r \<and> r \<le> 0)"
  by (cases t) (auto simp: jsLessEq_def)

lemma chunkLoop_done:
  "\<not> jsLess i (Finite (of_nat (length ws))) \<Longrightarrow> chunkLoop ws t i acc = Some acc"
  by (subst chunkLoop.simps) simp

lemma chunkLoop_step:
  "jsLess i (Finite (of_nat (length ws))) \<Longrightarrow>
     chunkLoop ws t i acc
       = chunkLoop ws t (jsAdd i t) (acc @ [join (js '' '') (sliceNumber ws i (jsAdd i t))])"
  by (subst chunkLoop.simps) simp

text \<open>With \<open>targetWords \<ge> 1\<close> a round takes the index past the next integer.\<close>

lemma index_advances:
  assumes t: "jsLessEq (Finite 1) t" and q: "0 \<le> q" "q < of_nat len" and len: "int len \<le> 2 ^ 53"
  shows "jsAdd (Finite q) t = PosInfinity
     \<or> (\<exists>q'. jsAdd (Finite q) t = Finite q' \<and> of_int (\<lfloor>q\<rfloor> + 1) \<le> q')"
proof (cases "t = PosInfinity")
  case True
  then show ?thesis by simp
next
  case False
  then obtain r where r: "t = Finite r" "1 \<le> r" using t by (auto simp: jsLessEq_one)
  have "of_int \<lfloor>q\<rfloor> < (of_nat len :: rat)" using of_int_floor_le [of q] q(2) by (rule le_less_trans)
  then have "(of_int \<lfloor>q\<rfloor> :: rat) < of_int (int len)" by simp
  then have flt: "\<lfloor>q\<rfloor> < int len" by (simp only: of_int_less_iff)
  have f0: "0 \<le> \<lfloor>q\<rfloor>" using q(1) by (simp only: zero_le_floor)
  have n: "0 \<le> \<lfloor>q\<rfloor> + 1" "\<lfloor>q\<rfloor> + 1 \<le> 2 ^ 53" using f0 flt len by linarith+
  have "(of_int (\<lfloor>q\<rfloor> + 1) :: rat) = of_int \<lfloor>q\<rfloor> + 1" by simp
  then have "of_int (\<lfloor>q\<rfloor> + 1) \<le> q + r" using r(2) of_int_floor_le [of q] by linarith
  from roundDouble_lower [OF n this] show ?thesis by (simp add: r(1))
qed

lemma chunkLoop_returns_finite:
  assumes t: "jsLessEq (Finite 1) t" and len: "int (length ws) \<le> 2 ^ 53"
  shows "0 \<le> q \<Longrightarrow> \<exists>y. chunkLoop ws t (Finite q) acc = Some y"
proof (induction "length ws - nat \<lfloor>q\<rfloor>" arbitrary: q acc rule: less_induct)
  case less
  show ?case
  proof (cases "q < of_nat (length ws)")
    case False
    then show ?thesis by (simp add: chunkLoop_done)
  next
    case True
    define acc' where "acc' = acc @ [join (js '' '') (sliceNumber ws (Finite q) (jsAdd (Finite q) t))]"
    have step: "chunkLoop ws t (Finite q) acc = chunkLoop ws t (jsAdd (Finite q) t) acc'"
      using True by (simp add: chunkLoop_step acc'_def)
    from index_advances [OF t less.prems True len]
    show ?thesis
    proof
      assume "jsAdd (Finite q) t = PosInfinity"
      then show ?thesis by (simp add: step chunkLoop_done)
    next
      assume "\<exists>q'. jsAdd (Finite q) t = Finite q' \<and> of_int (\<lfloor>q\<rfloor> + 1) \<le> q'"
      then obtain q' where q': "jsAdd (Finite q) t = Finite q'" "of_int (\<lfloor>q\<rfloor> + 1) \<le> q'"
        by blast
      have fl: "\<lfloor>q\<rfloor> + 1 \<le> \<lfloor>q'\<rfloor>" using q'(2) by (simp only: le_floor_iff)
      have f0: "0 \<le> \<lfloor>q\<rfloor>" using less.prems by (simp only: zero_le_floor)
      have "of_int \<lfloor>q\<rfloor> < (of_nat (length ws) :: rat)"
        using of_int_floor_le [of q] True by (rule le_less_trans)
      then have "(of_int \<lfloor>q\<rfloor> :: rat) < of_int (int (length ws))" by simp
      then have "\<lfloor>q\<rfloor> < int (length ws)" by (simp only: of_int_less_iff)
      then have m: "length ws - nat \<lfloor>q'\<rfloor> < length ws - nat \<lfloor>q\<rfloor>"
        using fl f0 by linarith
      have "0 \<le> \<lfloor>q'\<rfloor>" using fl f0 by linarith
      then have "0 \<le> q'" by (simp only: zero_le_floor)
      from less.hyps [OF m this] show ?thesis by (simp add: step q'(1))
    qed
  qed
qed

lemma chunkWords_returns:
  assumes "jsLessEq (Finite 1) t" "int (length (wordsOf text)) \<le> 2 ^ 53"
  shows "\<exists>chunks. chunkWords text t = Some chunks"
  using chunkLoop_returns_finite [OF assms, of 0 "[]"] by (simp add: chunkWords_def)

lemma jsAdd_nonpos:
  assumes "jsLessEq a (Finite 0)" "jsLessEq b (Finite 0)"
  shows "jsLessEq (jsAdd a b) (Finite 0)"
proof (cases "a = NegInfinity \<or> b = NegInfinity")
  case True
  then show ?thesis using assms by (cases a; cases b) (simp_all add: jsLessEq_def)
next
  case False
  then obtain q r where qr: "a = Finite q" "q \<le> 0" "b = Finite r" "r \<le> 0"
    using assms by (auto simp: jsLessEq_zero)
  then have "q + r \<le> 0" by simp
  from roundDouble_nonpos [OF this] show ?thesis by (auto simp: qr jsLessEq_zero)
qed

lemma chunkLoop_stuck:
  "chunkLoop ws t i acc = Some y \<Longrightarrow>
     \<not> (jsLessEq t (Finite 0) \<and> jsLessEq i (Finite 0) \<and> ws \<noteq> [])"
proof (rule chunkLoop.raw_induct
    [where P = "\<lambda>ws t i acc y. \<not> (jsLessEq t (Finite 0) \<and> jsLessEq i (Finite 0) \<and> ws \<noteq> [])"])
  fix f :: "jsstring list \<Rightarrow> jsnumber \<Rightarrow> jsnumber \<Rightarrow> jsstring list \<Rightarrow> jsstring list option"
    and ws t i acc y
  assume IH: "\<And>ws t i acc y. f ws t i acc = Some y \<Longrightarrow>
      \<not> (jsLessEq t (Finite 0) \<and> jsLessEq i (Finite 0) \<and> ws \<noteq> [])"
    and body: "(if jsLess i (Finite (of_nat (length ws)))
        then f ws t (jsAdd i t) (acc @ [join (js '' '') (sliceNumber ws i (jsAdd i t))])
        else Some acc) = Some y"
  show "\<not> (jsLessEq t (Finite 0) \<and> jsLessEq i (Finite 0) \<and> ws \<noteq> [])"
  proof
    assume a: "jsLessEq t (Finite 0) \<and> jsLessEq i (Finite 0) \<and> ws \<noteq> []"
    then have "jsLess i (Finite (of_nat (length ws)))"
      by (cases i) (auto simp: jsLessEq_def)
    with body have "f ws t (jsAdd i t) (acc @ [join (js '' '') (sliceNumber ws i (jsAdd i t))]) = Some y"
      by simp
    from IH [OF this] a jsAdd_nonpos [of i t] show False by simp
  qed
qed

lemma chunkLoop_None:
  "jsLessEq t (Finite 0) \<Longrightarrow> jsLessEq i (Finite 0) \<Longrightarrow> ws \<noteq> [] \<Longrightarrow> chunkLoop ws t i acc = None"
  using chunkLoop_stuck [of ws t i acc] by (cases "chunkLoop ws t i acc") auto

lemma chunkWords_None:
  "jsLessEq t (Finite 0) \<Longrightarrow> wordsOf text \<noteq> [] \<Longrightarrow> chunkWords text t = None"
  by (simp add: chunkWords_def chunkLoop_None jsLessEq_def)

lemma chunkWords_empty: "wordsOf text = [] \<Longrightarrow> chunkWords text t = Some []"
  by (simp add: chunkWords_def chunkLoop_done)

text \<open>When \<open>targetWords\<close> is not a number, a text with a word gives one empty fragment.\<close>

lemma chunkWords_NaN: "wordsOf text \<noteq> [] \<Longrightarrow> chunkWords text NaN = Some [[]]"
  by (simp add: chunkWords_def chunkLoop_step chunkLoop_done sliceNumber_def clampNumber_def
      clampIndex_def)

lemma jsAdd_nat:
  assumes "int (i + n) \<le> 2 ^ 53"
  shows "jsAdd (Finite (of_nat i)) (Finite (of_nat n)) = Finite (of_nat (i + n))"
  using roundDouble_int [of "int (i + n)"] assms by simp

lemma clampNumber_nat: "clampNumber (Finite (of_nat i)) len = min i len"
  by (simp add: clampNumber_def clampIndex_def)

lemma sliceNumber_window:
  "i < length ws \<Longrightarrow> sliceNumber ws (Finite (of_nat i)) (Finite (of_nat (i + n))) = take n (drop i ws)"
  unfolding sliceNumber_def Let_def clampNumber_nat
  by (cases "i + n \<le> length ws") (simp_all add: min_def)

lemma ceil_step:
  fixes n :: nat
  assumes "1 \<le> n" "i < len"
  shows "(len - i + n - 1) div n = Suc ((len - (i + n) + n - 1) div n)"
proof (cases "i + n \<le> len")
  case True
  have "len - i + n - 1 = (len - (i + n) + n - 1) + n" using True assms by arith
  then have "(len - i + n - 1) div n = ((len - (i + n) + n - 1) + n) div n"
    by (simp only:)
  also have "\<dots> = Suc ((len - (i + n) + n - 1) div n)"
    using assms by (simp only: div_add_self2)
  finally show ?thesis .
next
  case False
  then have a: "len - (i + n) + n - 1 < n" using assms by arith
  have b: "n * 1 \<le> len - i + n - 1" "len - i + n - 1 < n * Suc 1" using assms False by arith+
  have "(len - i + n - 1) div n = 1" by (rule div_nat_eqI [OF b])
  then show ?thesis using a by simp
qed

lemma chunkLoop_closed:
  assumes n: "1 \<le> n" and len: "int (length ws + n) \<le> 2 ^ 53"
  shows "chunkLoop ws (Finite (of_nat n)) (Finite (of_nat i)) acc
     = Some (acc @ map (\<lambda>j. join (js '' '') (take n (drop (i + j * n) ws)))
                       [0..<(length ws - i + n - 1) div n])"
proof (induction "length ws - i" arbitrary: i acc rule: less_induct)
  case less
  show ?case
  proof (cases "i < length ws")
    case False
    then have "(length ws - i + n - 1) div n = 0" using n by simp
    with False show ?thesis by (simp add: chunkLoop_done)
  next
    case True
    have lt: "length ws - (i + n) < length ws - i" using True n by arith
    have "int (i + n) \<le> 2 ^ 53" using True len by simp
    then have add: "jsAdd (Finite (of_nat i)) (Finite (of_nat n)) = Finite (of_nat (i + n))"
      by (rule jsAdd_nat)
    have cond: "jsLess (Finite (of_nat i)) (Finite (of_nat (length ws)))" using True by simp
    have step: "chunkLoop ws (Finite (of_nat n)) (Finite (of_nat i)) acc
        = chunkLoop ws (Finite (of_nat n)) (Finite (of_nat (i + n)))
            (acc @ [join (js '' '') (take n (drop i ws))])"
      unfolding chunkLoop_step [OF cond] add sliceNumber_window [OF True] ..
    have shift: "map (\<lambda>j. join (js '' '') (take n (drop (i + j * n) ws))) [0..<Suc m]
        = join (js '' '') (take n (drop i ws))
          # map (\<lambda>j. join (js '' '') (take n (drop (i + n + j * n) ws))) [0..<m]" for m
      by (simp only: map_upt_Suc) (simp add: ac_simps)
    show ?thesis
      unfolding step less.hyps [OF lt] ceil_step [OF n True] shift
      by simp
  qed
qed

text \<open>
  A \<open>targetWords\<close> that is at least the number of words, whatever its value, gives the one
  fragment of all words.
\<close>

lemma chunkWords_all:
  assumes w: "wordsOf text \<noteq> []" and len: "int (length (wordsOf text)) \<le> 2 ^ 53"
    and t: "of_nat (length (wordsOf text)) \<le> r"
  shows "chunkWords text (Finite r) = Some [join (js '' '') (wordsOf text)]"
proof -
  define ws where "ws = wordsOf text"
  have pos: "0 < length ws" using w by (simp add: ws_def)
  have cond: "jsLess (Finite 0) (Finite (of_nat (length ws)))" using pos by simp
  have "(of_int (int (length ws)) :: rat) \<le> 0 + r" using t by (simp add: ws_def)
  from roundDouble_lower [OF _ _ this] len
  have nxt: "jsAdd (Finite 0) (Finite r) = PosInfinity
      \<or> (\<exists>q. jsAdd (Finite 0) (Finite r) = Finite q \<and> of_nat (length ws) \<le> q)"
    by (simp add: ws_def)
  then have clamp: "clampNumber (jsAdd (Finite 0) (Finite r)) (length ws) = length ws"
  proof
    assume inf: "jsAdd (Finite 0) (Finite r) = PosInfinity"
    show ?thesis unfolding inf by (simp add: clampNumber_def)
  next
    assume "\<exists>q. jsAdd (Finite 0) (Finite r) = Finite q \<and> of_nat (length ws) \<le> q"
    then obtain q where q: "jsAdd (Finite 0) (Finite r) = Finite q" "of_nat (length ws) \<le> q"
      by blast
    have "(of_int (int (length ws)) :: rat) \<le> q" using q(2) by simp
    then have fl: "int (length ws) \<le> \<lfloor>q\<rfloor>" by (simp only: le_floor_iff)
    then have "0 \<le> \<lfloor>q\<rfloor>" by linarith
    then have "0 \<le> q" by (simp only: zero_le_floor)
    then show ?thesis unfolding q(1) using fl by (simp add: clampNumber_def clampIndex_def)
  qed
  have stop: "\<not> jsLess (jsAdd (Finite 0) (Finite r)) (Finite (of_nat (length ws)))"
    using nxt by auto
  have sl: "sliceNumber ws (Finite 0) (jsAdd (Finite 0) (Finite r)) = ws"
    unfolding sliceNumber_def Let_def clamp by (simp add: clampNumber_def clampIndex_def)
  show ?thesis
    unfolding chunkWords_def ws_def [symmetric] chunkLoop_step [OF cond] sl
    using stop by (simp add: chunkLoop_done)
qed

text \<open>The fragments for an integer \<open>targetWords \<ge> 1\<close>, in closed form.\<close>

lemma chunkWords_closed:
  assumes n: "1 \<le> n" and len: "length (wordsOf text) < 2 ^ 32"
  shows "chunkWords text (Finite (of_nat n))
     = Some (map (\<lambda>j. join (js '' '') (take n (drop (j * n) (wordsOf text))))
                 [0..<(length (wordsOf text) + n - 1) div n])"
proof (cases "n \<le> length (wordsOf text)")
  case True
  have "length (wordsOf text) + n < 2 ^ 32 + 2 ^ 32" using True len by simp
  then have "int (length (wordsOf text) + n) < 2 ^ 32 + 2 ^ 32"
    by (simp only: of_nat_less_iff [where 'a = int, symmetric]) simp
  then have "int (length (wordsOf text) + n) \<le> 2 ^ 53" by simp
  from chunkLoop_closed [OF n this, of 0 "[]"] show ?thesis
    by (simp add: chunkWords_def)
next
  case False
  show ?thesis
  proof (cases "wordsOf text = []")
    case True
    then show ?thesis using n by (simp add: chunkWords_empty)
  next
    case ne: False
    have "int (length (wordsOf text)) < 2 ^ 32"
      using len by (simp only: of_nat_less_iff [where 'a = int, symmetric]) simp
    then have l53: "int (length (wordsOf text)) \<le> 2 ^ 53" by simp
    have r: "(of_nat (length (wordsOf text)) :: rat) \<le> of_nat n" using False by simp
    have pos: "0 < length (wordsOf text)" using ne by simp
    have b: "n * 1 \<le> length (wordsOf text) + n - 1" "length (wordsOf text) + n - 1 < n * Suc 1"
      using False pos by arith+
    have "(length (wordsOf text) + n - 1) div n = 1" by (rule div_nat_eqI [OF b])
    then show ?thesis
      using chunkWords_all [OF ne l53 r] False by simp
  qed
qed

lemma below_ceil:
  fixes n :: nat
  assumes "1 \<le> n" "j < (len + n - 1) div n"
  shows "j * n < len"
proof -
  have "Suc j \<le> (len + n - 1) div n" using assms by simp
  then have "Suc j * n \<le> len + n - 1"
    using assms(1) by (simp only: less_eq_div_iff_mult_less_eq)
  then show ?thesis using assms(1) by simp
qed

lemma fragment_sizes:
  assumes t: "1 \<le> t" and len: "length (wordsOf text) < 2 ^ 32"
  shows "\<exists>chunks. chunkWords text (Finite (of_int t)) = Some chunks
     \<and> (\<forall>j<length chunks. 0 < wordCount (chunks ! j)
          \<and> (Suc j < length chunks \<longrightarrow> int (wordCount (chunks ! j)) = t))"
proof -
  define n where "n = nat t"
  define len where "len = length (wordsOf text)"
  define chunks where "chunks = map (\<lambda>j. join (js '' '') (take n (drop (j * n) (wordsOf text))))
                 [0..<(len + n - 1) div n]"
  have n: "1 \<le> n" "int n = t" using t by (simp_all add: n_def)
  have tn: "(of_int t :: rat) = of_nat n" unfolding n(2) [symmetric] by simp
  have some: "chunkWords text (Finite (of_int t)) = Some chunks"
    unfolding tn chunks_def len_def by (rule chunkWords_closed [OF n(1) assms(2)])
  have sizes: "0 < wordCount (chunks ! j)
      \<and> (Suc j < length chunks \<longrightarrow> int (wordCount (chunks ! j)) = t)" if j: "j < length chunks" for j
  proof -
    have jc: "j < (len + n - 1) div n" using j by (simp add: chunks_def)
    have cnt: "wordCount (chunks ! j) = min n (len - j * n)"
      using jc by (simp add: chunks_def wordCount_window len_def)
    have pos: "0 < wordCount (chunks ! j)"
      using below_ceil [OF n(1) jc] n(1) by (simp add: cnt)
    have full: "int (wordCount (chunks ! j)) = t" if "Suc j < length chunks"
    proof -
      have "Suc j < (len + n - 1) div n" using that by (simp add: chunks_def)
      from below_ceil [OF n(1) this] have "j * n + n < len" by simp
      then show ?thesis using n(2) by (simp add: cnt)
    qed
    show ?thesis using pos full by blast
  qed
  show ?thesis using some sizes by blast
qed

lemma wordCount_sub:
  assumes "set ws \<subseteq> set (wordsOf text)"
  shows "wordCount (join (js '' '') ws) = length ws"
proof -
  have "\<forall>w\<in>set ws. w \<noteq> [] \<and> (\<forall>c\<in>set w. \<not> isSpace c)"
    using assms wordsOf_proper by blast
  then show ?thesis by (simp add: wordCount_def wordsOf_join)
qed

lemma exactly_one:
  assumes "1 \<le> t" "int (length (wordsOf text)) = t" "length (wordsOf text) < 2 ^ 32"
  shows "\<exists>f. chunkWords text (Finite (of_int t)) = Some [f] \<and> int (wordCount f) = t"
proof -
  define n where "n = nat t"
  have n: "1 \<le> n" "length (wordsOf text) = n" "int n = t" using assms by (simp_all add: n_def)
  have tn: "(of_int t :: rat) = of_nat n" unfolding n(3) [symmetric] by simp
  have "(n + n - 1) div n = 1" using n(1) by (intro div_nat_eqI) auto
  then have "chunkWords text (Finite (of_int t)) = Some [join (js '' '') (wordsOf text)]"
    unfolding tn using chunkWords_closed [OF n(1) assms(3)] n(2) by simp
  moreover have "int (wordCount (join (js '' '') (wordsOf text))) = t"
    using assms(2) wordCount_sub [OF subset_refl, of "text"] by simp
  ultimately show ?thesis by blast
qed

lemma exactly_three:
  assumes "1 \<le> t" "int (length (wordsOf text)) = 2 * t + 1" "length (wordsOf text) < 2 ^ 32"
  shows "\<exists>f1 f2 f3. chunkWords text (Finite (of_int t)) = Some [f1, f2, f3]
     \<and> int (wordCount f1) = t \<and> int (wordCount f2) = t \<and> wordCount f3 = 1"
proof -
  define n where "n = nat t"
  define W where "W = wordsOf text"
  have n: "1 \<le> n" "length W = 2 * n + 1" "int n = t"
    using assms by (simp_all add: n_def W_def nat_add_distrib nat_mult_distrib)
  have tn: "(of_int t :: rat) = of_nat n" unfolding n(3) [symmetric] by simp
  have "(2 * n + 1 + n - 1) div n = 3" using n(1) by (intro div_nat_eqI) auto
  then have "chunkWords text (Finite (of_int t))
      = Some (map (\<lambda>j. join (js '' '') (take n (drop (j * n) W))) [0..<3])"
    unfolding tn using chunkWords_closed [OF n(1) assms(3)] n(2)
    by (simp add: W_def [symmetric])
  moreover have "[0..<3] = [0, 1, 2]" by (simp add: upt_rec)
  ultimately have three: "chunkWords text (Finite (of_int t))
      = Some [join (js '' '') (take n W), join (js '' '') (take n (drop n W)),
              join (js '' '') (take n (drop (2 * n) W))]"
    by simp
  have sub: "set (take n W) \<subseteq> set (wordsOf text)"
    "set (take n (drop n W)) \<subseteq> set (wordsOf text)"
    "set (take n (drop (2 * n) W)) \<subseteq> set (wordsOf text)"
    unfolding W_def by (meson set_take_subset set_drop_subset subset_trans)+
  have "int (wordCount (join (js '' '') (take n W))) = t"
    "int (wordCount (join (js '' '') (take n (drop n W)))) = t"
    "wordCount (join (js '' '') (take n (drop (2 * n) W))) = 1"
    using n wordCount_sub [OF sub(1)] wordCount_sub [OF sub(2)] wordCount_sub [OF sub(3)]
    by simp_all
  with three show ?thesis by blast
qed

lemma index_increases:
  assumes "jsLessEq (Finite 1) t" "0 \<le> q" "q < of_nat len" "int len \<le> 2 ^ 53"
  shows "jsLess (Finite q) (jsAdd (Finite q) t)"
proof -
  have "q < of_int (\<lfloor>q\<rfloor> + 1)" by linarith
  with index_advances [OF assms] show ?thesis by auto
qed

lemma mathMax_one: "mathMax (Finite 1) v = NaN \<or> jsLessEq (Finite 1) (mathMax (Finite 1) v)"
  by (cases v) (auto simp: mathMax_def jsLessEq_def)

lemma mathMax_NaN: "mathMax (Finite 1) v = NaN \<longleftrightarrow> v = NaN"
  by (cases v) (auto simp: mathMax_def)

text \<open>With \<open>targetWords \<ge> 1\<close>, whatever its value, no fragment is empty.\<close>

lemma window_nonempty:
  assumes t: "jsLessEq (Finite 1) t" and q: "0 \<le> q" "q < of_nat (length (wordsOf text))"
    and len: "int (length (wordsOf text)) \<le> 2 ^ 53"
  shows "0 < wordCount (join (js '' '') (sliceNumber (wordsOf text) (Finite q) (jsAdd (Finite q) t)))"
proof -
  define n where "n = length (wordsOf text)"
  have "of_int \<lfloor>q\<rfloor> < (of_nat n :: rat)"
    using of_int_floor_le [of q] q(2) unfolding n_def by (rule le_less_trans)
  then have "(of_int \<lfloor>q\<rfloor> :: rat) < of_int (int n)" by simp
  then have flt: "\<lfloor>q\<rfloor> < int n" by (simp only: of_int_less_iff)
  have f0: "0 \<le> \<lfloor>q\<rfloor>" using q(1) by (simp only: zero_le_floor)
  have k: "clampNumber (Finite q) n = nat \<lfloor>q\<rfloor>"
    using q(1) flt f0 by (simp add: clampNumber_def clampIndex_def)
  have final: "nat \<lfloor>q\<rfloor> < clampNumber (jsAdd (Finite q) t) n"
    using index_advances [OF t q len]
  proof
    assume inf: "jsAdd (Finite q) t = PosInfinity"
    have "nat \<lfloor>q\<rfloor> < n" using flt f0 by linarith
    then show ?thesis unfolding inf by (simp add: clampNumber_def)
  next
    assume "\<exists>q'. jsAdd (Finite q) t = Finite q' \<and> of_int (\<lfloor>q\<rfloor> + 1) \<le> q'"
    then obtain q' where q': "jsAdd (Finite q) t = Finite q'" "of_int (\<lfloor>q\<rfloor> + 1) \<le> q'"
      by blast
    have fl: "\<lfloor>q\<rfloor> + 1 \<le> \<lfloor>q'\<rfloor>" using q'(2) by (simp only: le_floor_iff)
    then have "0 \<le> \<lfloor>q'\<rfloor>" using f0 by linarith
    then have "0 \<le> q'" by (simp only: zero_le_floor)
    then have "clampNumber (Finite q') n = min (nat \<lfloor>q'\<rfloor>) n"
      by (simp add: clampNumber_def clampIndex_def)
    moreover have "nat \<lfloor>q\<rfloor> < min (nat \<lfloor>q'\<rfloor>) n" using fl f0 flt by linarith
    ultimately show ?thesis by (simp only: q'(1))
  qed
  have "wordCount (join (js '' '') (sliceNumber (wordsOf text) (Finite q) (jsAdd (Finite q) t)))
      = min (clampNumber (jsAdd (Finite q) t) n - nat \<lfloor>q\<rfloor>) (n - nat \<lfloor>q\<rfloor>)"
    unfolding sliceNumber_def Let_def n_def [symmetric] k
    by (simp only: n_def wordCount_window)
  moreover have "nat \<lfloor>q\<rfloor> < n" using flt f0 by linarith
  ultimately show ?thesis using final by simp
qed

lemma chunkLoop_nonempty:
  assumes t: "jsLessEq (Finite 1) t" and len: "int (length (wordsOf text)) \<le> 2 ^ 53"
  shows "0 \<le> q \<Longrightarrow> \<forall>c\<in>set acc. 0 < wordCount c \<Longrightarrow>
     \<exists>y. chunkLoop (wordsOf text) t (Finite q) acc = Some y \<and> (\<forall>c\<in>set y. 0 < wordCount c)"
proof (induction "length (wordsOf text) - nat \<lfloor>q\<rfloor>" arbitrary: q acc rule: less_induct)
  case less
  define ws where "ws = wordsOf text"
  show ?case
  proof (cases "q < of_nat (length (wordsOf text))")
    case False
    then show ?thesis using less.prems(2) by (simp add: chunkLoop_done)
  next
    case True
    define acc' where
      "acc' = acc @ [join (js '' '') (sliceNumber (wordsOf text) (Finite q) (jsAdd (Finite q) t))]"
    have step: "chunkLoop (wordsOf text) t (Finite q) acc
        = chunkLoop (wordsOf text) t (jsAdd (Finite q) t) acc'"
      using True by (simp add: chunkLoop_step acc'_def)
    have inv: "\<forall>c\<in>set acc'. 0 < wordCount c"
      using less.prems(2) window_nonempty [OF t less.prems(1) True len]
      by (simp add: acc'_def)
    from index_advances [OF t less.prems(1) True len]
    show ?thesis
    proof
      assume "jsAdd (Finite q) t = PosInfinity"
      then show ?thesis using inv by (simp add: step chunkLoop_done)
    next
      assume "\<exists>q'. jsAdd (Finite q) t = Finite q' \<and> of_int (\<lfloor>q\<rfloor> + 1) \<le> q'"
      then obtain q' where q': "jsAdd (Finite q) t = Finite q'" "of_int (\<lfloor>q\<rfloor> + 1) \<le> q'"
        by blast
      have fl: "\<lfloor>q\<rfloor> + 1 \<le> \<lfloor>q'\<rfloor>" using q'(2) by (simp only: le_floor_iff)
      have f0: "0 \<le> \<lfloor>q\<rfloor>" using less.prems(1) by (simp only: zero_le_floor)
      have "of_int \<lfloor>q\<rfloor> < (of_nat (length (wordsOf text)) :: rat)"
        using of_int_floor_le [of q] True by (rule le_less_trans)
      then have "(of_int \<lfloor>q\<rfloor> :: rat) < of_int (int (length (wordsOf text)))" by simp
      then have "\<lfloor>q\<rfloor> < int (length (wordsOf text))" by (simp only: of_int_less_iff)
      then have m: "length (wordsOf text) - nat \<lfloor>q'\<rfloor> < length (wordsOf text) - nat \<lfloor>q\<rfloor>"
        using fl f0 by linarith
      have "0 \<le> \<lfloor>q'\<rfloor>" using fl f0 by linarith
      then have "0 \<le> q'" by (simp only: zero_le_floor)
      from less.hyps [OF m this inv] show ?thesis by (simp add: step q'(1))
    qed
  qed
qed

lemma chunkWords_nonempty:
  assumes "jsLessEq (Finite 1) t" "length (wordsOf text) < 2 ^ 32"
  shows "\<exists>chunks. chunkWords text t = Some chunks \<and> (\<forall>c\<in>set chunks. 0 < wordCount c)"
proof -
  have "int (length (wordsOf text)) < 2 ^ 32"
    using assms(2) by (simp only: of_nat_less_iff [where 'a = int, symmetric]) simp
  then have len: "int (length (wordsOf text)) \<le> 2 ^ 53" by simp
  from chunkLoop_nonempty [OF assms(1) len, of 0 "[]"] show ?thesis
    by (simp add: chunkWords_def)
qed

text \<open>Evaluation of the rounding on small fractions.\<close>

lemma floor_rat_numeral:
  "\<lfloor>(numeral a :: rat) / numeral b\<rfloor> = numeral a div numeral b"
  using floor_divide_of_int_eq [of "numeral a" "numeral b", where 'a = rat] by simp

lemma bitLength_numeral:
  "bitLength (numeral k) = Suc (bitLength (numeral k div 2))"
  "bitLength 1 = 1" "bitLength 0 = 0"
  by (subst bitLength.simps, simp)+

lemmas roundDouble_eval = roundDouble_def roundPositive_def exponentOf_def pow2_def
  roundHalfEven_def Let_def floor_rat_numeral bitLength_numeral

lemma halves_are_doubles:
  "roundDouble (1 / 2) = Finite (1 / 2)" "roundDouble 1 = Finite 1"
  "roundDouble (3 / 2) = Finite (3 / 2)" "roundDouble 2 = Finite 2"
  "roundDouble 3 = Finite 3" "roundDouble (9 / 2) = Finite (9 / 2)"
  by (simp_all add: roundDouble_eval)

lemmas chunkWords_eval = chunkWords_def wordsOf_def js_def isSpace_def chunkLoop.simps
  sliceNumber_def clampNumber_def clampIndex_def floor_rat_numeral halves_are_doubles

text \<open>
  C2, as amended. A text without words gives no fragment, whatever \<open>targetWords\<close> is. For
  a text of fewer than \<open>2 ^ 32\<close> words, the most that an array holds, and an integer
  \<open>targetWords \<ge> 1\<close>, chunkWords returns; a text of exactly \<open>targetWords\<close> words gives
  exactly one fragment, a text of \<open>2 * targetWords + 1\<close> words gives exactly three
  fragments, of \<open>targetWords\<close>, \<open>targetWords\<close> and \<open>1\<close> words, and in general no fragment is
  empty and every fragment but the last has exactly \<open>targetWords\<close> words. No fragment is
  empty either for any other \<open>targetWords \<ge> 1\<close>, a fraction or plus infinity.
\<close>

theorem chunkWords_fragments:
  assumes "length (wordsOf text) < 2 ^ 32"
  shows "(wordsOf text = [] \<longrightarrow> chunkWords text v = Some [])
   \<and> (1 \<le> t \<and> int (length (wordsOf text)) = t \<longrightarrow>
        (\<exists>f. chunkWords text (Finite (of_int t)) = Some [f] \<and> int (wordCount f) = t))
   \<and> (1 \<le> t \<and> int (length (wordsOf text)) = 2 * t + 1 \<longrightarrow>
        (\<exists>f1 f2 f3. chunkWords text (Finite (of_int t)) = Some [f1, f2, f3]
           \<and> int (wordCount f1) = t \<and> int (wordCount f2) = t \<and> wordCount f3 = 1))
   \<and> (1 \<le> t \<longrightarrow>
        (\<exists>chunks. chunkWords text (Finite (of_int t)) = Some chunks
           \<and> (\<forall>j<length chunks. 0 < wordCount (chunks ! j)
                \<and> (Suc j < length chunks \<longrightarrow> int (wordCount (chunks ! j)) = t))))
   \<and> (jsLessEq (Finite 1) v \<longrightarrow>
        (\<exists>chunks. chunkWords text v = Some chunks \<and> (\<forall>c\<in>set chunks. 0 < wordCount c)))"
  using chunkWords_empty [of "text" v] exactly_one [of t "text"] exactly_three [of t "text"]
    fragment_sizes [of t "text"] chunkWords_nonempty [of v "text"] assms
  by blast

theorem chunkWords_fragments_witness:
  "length (wordsOf (js ''  '')) < 2 ^ 32 \<and> wordsOf (js ''  '') = []
   \<and> chunkWords (js ''  '') NaN = Some []
   \<and> length (wordsOf (js ''a b'')) < 2 ^ 32 \<and> int (length (wordsOf (js ''a b''))) = 2
   \<and> (\<exists>f. chunkWords (js ''a b'') (Finite 2) = Some [f] \<and> int (wordCount f) = 2)
   \<and> length (wordsOf (js ''a b c d e'')) < 2 ^ 32
   \<and> int (length (wordsOf (js ''a b c d e''))) = 2 * 2 + 1
   \<and> (\<exists>f1 f2 f3. chunkWords (js ''a b c d e'') (Finite 2) = Some [f1, f2, f3]
         \<and> int (wordCount f1) = 2 \<and> int (wordCount f2) = 2 \<and> wordCount f3 = 1)
   \<and> (\<exists>chunks. chunkWords (js ''a b c d e'') (Finite 2) = Some chunks
         \<and> (\<forall>j<length chunks. 0 < wordCount (chunks ! j)
              \<and> (Suc j < length chunks \<longrightarrow> int (wordCount (chunks ! j)) = 2)))
   \<and> jsLessEq (Finite 1) (Finite (3 / 2))
   \<and> (\<exists>chunks. chunkWords (js ''a b c d e'') (Finite (3 / 2)) = Some chunks
         \<and> (\<forall>c\<in>set chunks. 0 < wordCount c))"
proof -
  have h1: "wordsOf (js ''  '') = []"
    by (simp add: wordsOf_def js_def isSpace_def)
  have h2: "int (length (wordsOf (js ''a b''))) = 2"
    by (simp add: wordsOf_def js_def isSpace_def)
  have h3: "int (length (wordsOf (js ''a b c d e''))) = 2 * 2 + 1"
    by (simp add: wordsOf_def js_def isSpace_def)
  have l1: "length (wordsOf (js ''  '')) < 2 ^ 32" using h1 by simp
  have l2: "length (wordsOf (js ''a b'')) < 2 ^ 32" using h2 by simp
  have l3: "length (wordsOf (js ''a b c d e'')) < 2 ^ 32" using h3 by simp
  have j: "jsLessEq (Finite 1) (Finite (3 / 2))" by (simp add: jsLessEq_def)
  have c1: "chunkWords (js ''  '') NaN = Some []"
    using chunkWords_fragments [OF l1, of NaN] h1 by blast
  have c2: "\<exists>f. chunkWords (js ''a b'') (Finite 2) = Some [f] \<and> int (wordCount f) = 2"
    using chunkWords_fragments [OF l2, of _ 2] h2 by simp
  have c3: "\<exists>f1 f2 f3. chunkWords (js ''a b c d e'') (Finite 2) = Some [f1, f2, f3]
         \<and> int (wordCount f1) = 2 \<and> int (wordCount f2) = 2 \<and> wordCount f3 = 1"
    using chunkWords_fragments [OF l3, of _ 2] h3 by simp
  have c4: "\<exists>chunks. chunkWords (js ''a b c d e'') (Finite 2) = Some chunks
         \<and> (\<forall>j<length chunks. 0 < wordCount (chunks ! j)
              \<and> (Suc j < length chunks \<longrightarrow> int (wordCount (chunks ! j)) = 2))"
    using chunkWords_fragments [OF l3, of _ 2] by simp
  have c5: "\<exists>chunks. chunkWords (js ''a b c d e'') (Finite (3 / 2)) = Some chunks
         \<and> (\<forall>c\<in>set chunks. 0 < wordCount c)"
    using chunkWords_fragments [OF l3, of "Finite (3 / 2)"] j by blast
  show ?thesis
    apply (intro conjI)
    using h1 h2 h3 l1 l2 l3 j c1 c2 c3 c4 c5 by blast+
qed

text \<open>
  C2 as stated fails where \<open>targetWords\<close> is not a positive integer, and nothing in
  chunkWords or in the handler makes it one. At \<open>targetWords = 1.5\<close> the four words of
  \<^verbatim>\<open>a b c d\<close> come in fragments of 1, 2 and 1 words: a fragment that is not the last has
  not \<open>targetWords\<close> words. When \<open>targetWords\<close> is not a number, \<^verbatim>\<open>a b\<close> gives one fragment,
  which is empty. At \<open>targetWords = 0\<close> the text of exactly \<open>targetWords\<close> words is the empty
  one, and it gives no fragment rather than exactly one.
\<close>

theorem chunkWords_fragment_sizes_fail:
  "isDouble (Finite (3 / 2))
   \<and> chunkWords (js ''a b c d'') (Finite (3 / 2)) = Some [js ''a'', js ''b c'', js ''d'']
   \<and> wordCount (js ''a'') = 1 \<and> wordCount (js ''b c'') = 2
   \<and> chunkWords (js ''a b'') NaN = Some [[]] \<and> wordCount [] = 0
   \<and> int (length (wordsOf [])) = 0 \<and> chunkWords [] (Finite 0) = Some []"
  by (simp add: isDouble_def wordCount_def chunkWords_eval)

text \<open>
  C10, as amended. chunkWords returns whenever \<open>targetWords \<ge> 1\<close>, plus infinity
  included, and the text has fewer than \<open>2 ^ 32\<close> words (the most that an array holds),
  whenever \<open>targetWords\<close> is not a number, and whenever the text has no word; with
  \<open>targetWords \<ge> 1\<close> each round moves the index strictly forward. It never returns when
  \<open>targetWords \<le> 0\<close>, minus infinity included, and the text has a word: the index, which
  starts at 0, is then never above 0. The handler passes \<open>targetWords\<close> on as \<^verbatim>\<open>Number\<close>
  made it, whatever its value, so that it does not return either for such a value and a
  text with a word. \<open>maxFragments\<close> and \<open>startFrom\<close> go through \<^verbatim>\<open>Math.max(1, ...)\<close>: they
  are at least 1 unless the field is not a number, and then they are not a number either.
\<close>

theorem chunkWords_termination:
  "((jsLessEq (Finite 1) t \<and> length (wordsOf text) < 2 ^ 32) \<or> t = NaN \<or> wordsOf text = [] \<longrightarrow>
        (\<exists>chunks. chunkWords text t = Some chunks))
   \<and> (jsLessEq (Finite 1) t \<and> 0 \<le> q \<and> q < of_nat (length (wordsOf text))
        \<and> length (wordsOf text) < 2 ^ 32 \<longrightarrow>
        jsLess (Finite q) (jsAdd (Finite q) t)
        \<and> chunkLoop (wordsOf text) t (Finite q) acc
            = chunkLoop (wordsOf text) t (jsAdd (Finite q) t)
                (acc @ [join (js '' '')
                   (sliceNumber (wordsOf text) (Finite q) (jsAdd (Finite q) t))]))
   \<and> (jsLessEq t (Finite 0) \<and> wordsOf text \<noteq> [] \<longrightarrow> chunkWords text t = None)
   \<and> (jsLessEq t (Finite 0) \<and> jsLessEq i (Finite 0) \<and> wordsOf text \<noteq> [] \<longrightarrow>
        jsLessEq (jsAdd i t) (Finite 0) \<and> chunkLoop (wordsOf text) t i acc = None)
   \<and> targetWords (parseParams toNumber mfField twField sfField)
       = formNumber toNumber twField (Finite 1200)
   \<and> (s \<noteq> [] \<longrightarrow>
        targetWords (parseParams toNumber mfField (TextEntry s) sfField) = toNumber s)
   \<and> (s \<noteq> [] \<and> jsLessEq (toNumber s) (Finite 0) \<and> wordsOf text \<noteq> [] \<longrightarrow>
        importChunks text (parseParams toNumber mfField (TextEntry s) sfField) = None)
   \<and> (maxFragments (parseParams toNumber mfField twField sfField) = NaN
        \<or> jsLessEq (Finite 1) (maxFragments (parseParams toNumber mfField twField sfField)))
   \<and> (startFrom (parseParams toNumber mfField twField sfField) = NaN
        \<or> jsLessEq (Finite 1) (startFrom (parseParams toNumber mfField twField sfField)))
   \<and> (maxFragments (parseParams toNumber mfField twField sfField) = NaN
        \<longleftrightarrow> formNumber toNumber mfField (Finite 3) = NaN)
   \<and> (startFrom (parseParams toNumber mfField twField sfField) = NaN
        \<longleftrightarrow> formNumber toNumber sfField (Finite 1) = NaN)"
proof -
  have len: "int (length (wordsOf text)) \<le> 2 ^ 53" if "length (wordsOf text) < 2 ^ 32"
  proof -
    have "int (length (wordsOf text)) < 2 ^ 32"
      using that by (simp only: of_nat_less_iff [where 'a = int, symmetric]) simp
    then show ?thesis by simp
  qed
  have returns: "\<exists>chunks. chunkWords text t = Some chunks"
    if "(jsLessEq (Finite 1) t \<and> length (wordsOf text) < 2 ^ 32) \<or> t = NaN \<or> wordsOf text = []"
  proof (cases "wordsOf text = []")
    case True
    then show ?thesis by (simp add: chunkWords_empty)
  next
    case False
    then show ?thesis
      using that chunkWords_returns [of t "text"] len chunkWords_NaN [of "text"] by blast
  qed
  have forward: "jsLess (Finite q) (jsAdd (Finite q) t)"
    if "jsLessEq (Finite 1) t" "0 \<le> q" "q < of_nat (length (wordsOf text))"
      "length (wordsOf text) < 2 ^ 32"
    using that(1,2,3) len [OF that(4)] by (rule index_increases)
  have step: "chunkLoop (wordsOf text) t (Finite q) acc
      = chunkLoop (wordsOf text) t (jsAdd (Finite q) t)
          (acc @ [join (js '' '') (sliceNumber (wordsOf text) (Finite q) (jsAdd (Finite q) t))])"
    if "q < of_nat (length (wordsOf text))"
    using that by (simp add: chunkLoop_step)
  have params: "targetWords (parseParams toNumber mfField twField sfField)
        = formNumber toNumber twField (Finite 1200)"
    "s \<noteq> [] \<Longrightarrow> targetWords (parseParams toNumber mfField (TextEntry s) sfField) = toNumber s"
    by (simp_all add: parseParams_def formNumber_def)
  have handler: "importChunks text (parseParams toNumber mfField (TextEntry s) sfField) = None"
    if "s \<noteq> []" "jsLessEq (toNumber s) (Finite 0)" "wordsOf text \<noteq> []"
    using that chunkWords_None [of "toNumber s" "text"] by (simp add: importChunks_def params(2))
  have clamped: "maxFragments (parseParams toNumber mfField twField sfField) = NaN
        \<or> jsLessEq (Finite 1) (maxFragments (parseParams toNumber mfField twField sfField))"
    "startFrom (parseParams toNumber mfField twField sfField) = NaN
        \<or> jsLessEq (Finite 1) (startFrom (parseParams toNumber mfField twField sfField))"
    using mathMax_one by (simp_all add: parseParams_def)
  have nan: "maxFragments (parseParams toNumber mfField twField sfField) = NaN
        \<longleftrightarrow> formNumber toNumber mfField (Finite 3) = NaN"
    "startFrom (parseParams toNumber mfField twField sfField) = NaN
        \<longleftrightarrow> formNumber toNumber sfField (Finite 1) = NaN"
    by (simp_all add: parseParams_def mathMax_NaN)
  show ?thesis
    using returns forward step params handler clamped nan chunkWords_None [of t "text"]
      jsAdd_nonpos [of i t] chunkLoop_None [of t i "wordsOf text" acc]
    by blast
qed

theorem chunkWords_termination_witness:
  "length (wordsOf (js ''a'')) < 2 ^ 32 \<and> jsLessEq (Finite 1) PosInfinity
   \<and> (\<exists>chunks. chunkWords (js ''a'') PosInfinity = Some chunks)
   \<and> jsLessEq (Finite 1) (Finite 1) \<and> (0 :: rat) \<le> 0
   \<and> (0 :: rat) < of_nat (length (wordsOf (js ''a'')))
   \<and> jsLess (Finite 0) (jsAdd (Finite 0) (Finite 1))
   \<and> jsLessEq (Finite (- 1)) (Finite 0) \<and> wordsOf (js ''a'') \<noteq> []
   \<and> chunkWords (js ''a'') (Finite (- 1)) = None
   \<and> jsLessEq NegInfinity (Finite 0) \<and> jsLessEq (jsAdd NegInfinity (Finite (- 1))) (Finite 0)
   \<and> chunkLoop (wordsOf (js ''a'')) (Finite (- 1)) NegInfinity [] = None
   \<and> js ''0'' \<noteq> []
   \<and> targetWords (parseParams (\<lambda>s. Finite 0) Absent (TextEntry (js ''0'')) Absent) = Finite 0
   \<and> importChunks (js ''a'') (parseParams (\<lambda>s. Finite 0) Absent (TextEntry (js ''0'')) Absent)
       = None"
proof -
  have w: "wordsOf (js ''a'') = [js ''a'']"
    by (simp add: wordsOf_def js_def isSpace_def)
  have l: "length (wordsOf (js ''a'')) < 2 ^ 32" by (simp add: w)
  have s: "js ''0'' \<noteq> []" by (simp add: js_def)
  have j: "jsLessEq (Finite 1) PosInfinity" "jsLessEq (Finite 1) (Finite 1)"
    "jsLessEq (Finite (- 1)) (Finite 0)" "jsLessEq NegInfinity (Finite 0)"
    "jsLessEq (Finite 0) (Finite 0)"
    by (simp_all add: jsLessEq_def)
  have q: "(0 :: rat) \<le> 0" "(0 :: rat) < of_nat (length (wordsOf (js ''a'')))"
    by (simp_all add: w)
  have ne: "wordsOf (js ''a'') \<noteq> []" by (simp add: w)
  have c1: "\<exists>chunks. chunkWords (js ''a'') PosInfinity = Some chunks"
    using chunkWords_termination [of PosInfinity "js ''a''", THEN conjunct1] j(1) l by blast
  have c2: "jsLess (Finite 0) (jsAdd (Finite 0) (Finite 1))"
    using chunkWords_termination [of "Finite 1" "js ''a''" 0, THEN conjunct2, THEN conjunct1]
      j(2) q l
    by blast
  have c3: "chunkWords (js ''a'') (Finite (- 1)) = None"
    using chunkWords_termination
      [of "Finite (- 1)" "js ''a''", THEN conjunct2, THEN conjunct2, THEN conjunct1] j(3) ne
    by blast
  have c4: "jsLessEq (jsAdd NegInfinity (Finite (- 1))) (Finite 0)
      \<and> chunkLoop (wordsOf (js ''a'')) (Finite (- 1)) NegInfinity [] = None"
    using chunkWords_termination
      [of "Finite (- 1)" "js ''a''" _ "[]" NegInfinity,
       THEN conjunct2, THEN conjunct2, THEN conjunct2, THEN conjunct1] j(3,4) ne
    by blast
  have c5: "targetWords (parseParams (\<lambda>s. Finite 0) Absent (TextEntry (js ''0'')) Absent)
        = Finite 0"
    using chunkWords_termination
      [of _ "js ''a''" _ _ _ "\<lambda>s. Finite 0" Absent _ Absent "js ''0''",
       THEN conjunct2, THEN conjunct2, THEN conjunct2, THEN conjunct2, THEN conjunct2,
       THEN conjunct1] s
    by blast
  have c6: "importChunks (js ''a'')
        (parseParams (\<lambda>s. Finite 0) Absent (TextEntry (js ''0'')) Absent) = None"
    using chunkWords_termination
      [of _ "js ''a''" _ _ _ "\<lambda>s. Finite 0" Absent _ Absent "js ''0''",
       THEN conjunct2, THEN conjunct2, THEN conjunct2, THEN conjunct2, THEN conjunct2,
       THEN conjunct2, THEN conjunct1] s j(5) ne
    by blast
  show ?thesis
    apply (intro conjI)
    using l j q ne s c1 c2 c3 c4 c5 c6 by blast+
qed

text \<open>
  C10 as stated fails between 0 and 1 and outside the numbers. At \<open>targetWords = 0.5\<close>,
  which is not at least 1, chunkWords returns for a text with a word (a first fragment that
  is empty, then the word), and so it does when \<open>targetWords\<close> is not a number: the
  ``only if'' does not hold. \<open>maxFragments\<close> and \<open>startFrom\<close> are not always at least 1: for a
  field that is not a number, here a file, \<^verbatim>\<open>Math.max(1, NaN)\<close> is not a number.
\<close>

theorem chunkWords_returns_below_one:
  "isDouble (Finite (1 / 2)) \<and> \<not> jsLessEq (Finite 1) (Finite (1 / 2))
   \<and> wordsOf (js ''a'') \<noteq> []
   \<and> chunkWords (js ''a'') (Finite (1 / 2)) = Some [[], js ''a'']
   \<and> \<not> jsLessEq (Finite 1) NaN \<and> chunkWords (js ''a'') NaN = Some [[]]
   \<and> (\<forall>toNumber. maxFragments (parseParams toNumber FileEntry Absent Absent) = NaN
         \<and> \<not> jsLessEq (Finite 1) (maxFragments (parseParams toNumber FileEntry Absent Absent)))
   \<and> (\<forall>toNumber. startFrom (parseParams toNumber Absent Absent FileEntry) = NaN)"
  by (simp add: isDouble_def jsLessEq_def parseParams_def formNumber_def mathMax_def
      chunkWords_eval)
section \<open>Properties of the operative fragments\<close>

lemma clampNumber_int: "clampNumber (Finite (of_int k)) len = clampIndex k len"
  by (simp add: clampNumber_def)

text \<open>
  On integers the slice of the handler, which computes with numbers, is the slice on
  integers: the subtraction and the addition are exact up to \<open>2 ^ 53\<close>.
\<close>

lemma operativeChunks_numbers:
  assumes "1 \<le> sf" "1 \<le> mf" "sf + mf \<le> 2 ^ 53"
  shows "sliceNumber allChunks (jsSub (Finite (of_int sf)) (Finite 1))
           (jsAdd (jsSub (Finite (of_int sf)) (Finite 1)) (Finite (of_int mf)))
         = operativeChunks allChunks sf mf"
proof -
  have "roundDouble (of_int (sf - 1)) = Finite (of_int (sf - 1))"
    using assms by (intro roundDouble_int) simp_all
  then have sub: "jsSub (Finite (of_int sf)) (Finite 1) = Finite (of_int (sf - 1))"
    by (simp add: jsSub_def negate_def)
  have "roundDouble (of_int (sf - 1 + mf)) = Finite (of_int (sf - 1 + mf))"
    using assms by (intro roundDouble_int) simp_all
  then have add: "jsAdd (Finite (of_int (sf - 1))) (Finite (of_int mf))
      = Finite (of_int (sf - 1 + mf))"
    by simp
  show ?thesis
    unfolding sub add sliceNumber_def clampNumber_int operativeChunks_def slice_def ..
qed



section \<open>Properties of the fragment orchestrator\<close>

lemma orchestrateLoop_fails:
  assumes k: "k < length chunks"
    and ok: "\<forall>j<k. gen j (chunks ! j) (lessonTitle bookTitle (sf + int j)) = Inr (ls j)"
    and bad: "gen k (chunks ! k) (lessonTitle bookTitle (sf + int k)) = Inl e"
    and i: "i \<le> k" "length (calls st) = i"
  shows "orchestrateLoop gen bookTitle sf chunks i st
     = \<lparr>lessons = lessons st @ map (\<lambda>j. \<lparr>index = sf + int j, lesson = ls j\<rparr>) [i..<k],
        partialError = Some \<lparr>fragment = sf + int k, error = e\<rparr>,
        calls = calls st @ map (\<lambda>j. sf + int j) [i..<Suc k]\<rparr>"
  using i
proof (induction "k - i" arbitrary: i st)
  case 0
  then have ik: "i = k" by simp
  show ?case
    using k bad "0.prems"(2) unfolding ik
    by (subst orchestrateLoop.simps) (simp add: Let_def)
next
  case (Suc d)
  then have lt: "i < k" by simp
  have call: "gen (length (calls st)) (chunks ! i) (lessonTitle bookTitle (sf + int i)) = Inr (ls i)"
    using ok lt Suc.prems(2) by simp
  let ?st = "st\<lparr>calls := calls st @ [sf + int i],
                lessons := lessons st @ [\<lparr>index = sf + int i, lesson = ls i\<rparr>]\<rparr>"
  have step: "orchestrateLoop gen bookTitle sf chunks i st
      = orchestrateLoop gen bookTitle sf chunks (Suc i) ?st"
    using lt k call by (subst orchestrateLoop.simps) (simp add: Let_def)
  have d: "d = k - Suc i" using Suc.hyps(2) by simp
  have "orchestrateLoop gen bookTitle sf chunks (Suc i) ?st
     = \<lparr>lessons = lessons ?st @ map (\<lambda>j. \<lparr>index = sf + int j, lesson = ls j\<rparr>) [Suc i..<k],
        partialError = Some \<lparr>fragment = sf + int k, error = e\<rparr>,
        calls = calls ?st @ map (\<lambda>j. sf + int j) [Suc i..<Suc k]\<rparr>"
    using Suc.hyps(1) [OF d, of ?st] lt Suc.prems(2) by simp
  then show ?case
    using lt unfolding step by (simp add: upt_conv_Cons del: upt_Suc)
qed

text \<open>
  C1. For every operative fragment sequence: if the generator call for the fragment at
  position \<open>k\<close> (counted from 1) throws and the calls before it succeed, the orchestrator
  ends with exactly the results of the positions \<open>1 .. k - 1\<close>, in order and with the
  indices \<open>startFrom .. startFrom + k - 2\<close>, and with one error record that names the
  index \<open>startFrom + k - 1\<close>. The generator has been called once for each of the positions
  \<open>1 .. k\<close>, in order, and for nothing else: no later fragment is attempted and none is
  attempted twice.
\<close>

theorem orchestrate_stops_at_first_failure:
  assumes "1 \<le> k" and "k \<le> length chunks"
    and "\<forall>j<k - 1. gen j (chunks ! j) (lessonTitle bookTitle (sf + int j)) = Inr (ls j)"
    and "gen (k - 1) (chunks ! (k - 1)) (lessonTitle bookTitle (sf + int (k - 1))) = Inl e"
  shows "lessons (orchestrate gen bookTitle sf chunks)
       = map (\<lambda>j. \<lparr>index = sf + int j, lesson = ls j\<rparr>) [0..<k - 1]
     \<and> partialError (orchestrate gen bookTitle sf chunks)
       = Some \<lparr>fragment = sf + int k - 1, error = e\<rparr>
     \<and> calls (orchestrate gen bookTitle sf chunks) = map (\<lambda>j. sf + int j) [0..<k]
     \<and> responseStatus (orchestrate gen bookTitle sf chunks) = 206"
proof -
  have k: "k - 1 < length chunks" "Suc (k - 1) = k" "int (k - 1) = int k - 1"
    using assms(1,2) by simp_all
  have "orchestrate gen bookTitle sf chunks
     = \<lparr>lessons = map (\<lambda>j. \<lparr>index = sf + int j, lesson = ls j\<rparr>) [0..<k - 1],
        partialError = Some \<lparr>fragment = sf + int (k - 1), error = e\<rparr>,
        calls = map (\<lambda>j. sf + int j) [0..<Suc (k - 1)]\<rparr>"
    unfolding orchestrate_def
    using orchestrateLoop_fails [where k = "k - 1" and chunks = chunks and gen = gen
        and bookTitle = bookTitle and sf = sf and ls = ls and e = e and i = 0
        and st = "\<lparr>lessons = [], partialError = None, calls = []\<rparr>"]
      k(1) assms(3) assms(4)
    by simp
  then show ?thesis
    by (simp only: k(2) k(3)) (simp add: responseStatus_def)
qed

theorem orchestrate_stops_at_first_failure_witness:
  "lessons (orchestrate (\<lambda>n c t. if n = 1 then Inl (js ''boom'') else Inr c)
       (js ''B'') 4 [js ''x'', js ''y'', js ''z''])
     = [\<lparr>index = 4, lesson = js ''x''\<rparr>]
   \<and> partialError (orchestrate (\<lambda>n c t. if n = 1 then Inl (js ''boom'') else Inr c)
       (js ''B'') 4 [js ''x'', js ''y'', js ''z''])
     = Some \<lparr>fragment = 5, error = js ''boom''\<rparr>
   \<and> calls (orchestrate (\<lambda>n c t. if n = 1 then Inl (js ''boom'') else Inr c)
       (js ''B'') 4 [js ''x'', js ''y'', js ''z'']) = [4, 5]"
  using orchestrate_stops_at_first_failure [of 2 "[js ''x'', js ''y'', js ''z'']"
      "\<lambda>n c t. if n = 1 then Inl (js ''boom'') else Inr c" "js ''B''" 4
      "\<lambda>j. js ''x''" "js ''boom''"]
  by (simp add: upt_rec)

section \<open>Properties of path normalization\<close>

lemma splitOn_no_sep:
  "sep \<notin> set cur \<Longrightarrow> \<forall>p\<in>set (splitOn sep cur s). sep \<notin> set p"
proof (induction s arbitrary: cur)
  case Nil
  then show ?case by simp
next
  case (Cons c s)
  show ?case
  proof (cases "c = sep")
    case True
    have "\<forall>p\<in>set (splitOn sep [] s). sep \<notin> set p" by (rule Cons.IH) simp
    with True Cons.prems show ?thesis by simp
  next
    case False
    have "\<forall>p\<in>set (splitOn sep (cur @ [c]) s). sep \<notin> set p"
      by (rule Cons.IH) (use False Cons.prems in auto)
    with False show ?thesis by simp
  qed
qed

lemma splitOn_nonempty: "splitOn sep cur s \<noteq> []"
  by (induction s arbitrary: cur) auto

lemma splitOn_without_sep: "sep \<notin> set s \<Longrightarrow> splitOn sep cur s = [cur @ s]"
  by (induction s arbitrary: cur) auto

lemma splitOn_piece:
  "sep \<notin> set w \<Longrightarrow> splitOn sep cur (w @ rest) = splitOn sep (cur @ w) rest"
  by (induction w arbitrary: cur) auto

lemma splitOn_join:
  "ws \<noteq> [] \<Longrightarrow> \<forall>w\<in>set ws. sep \<notin> set w \<Longrightarrow>
     splitOn sep cur (join [sep] ws) = (cur @ hd ws) # tl ws"
proof (induction ws arbitrary: cur)
  case Nil
  then show ?case by simp
next
  case (Cons w rest)
  show ?case
  proof (cases rest)
    case Nil
    with Cons.prems show ?thesis by (simp add: splitOn_without_sep)
  next
    case (Cons w' rest')
    have "splitOn sep cur (join [sep] (w # rest)) = splitOn sep (cur @ w) (sep # join [sep] rest)"
      using Cons Cons.prems splitOn_piece [of sep w cur] by simp
    also have "\<dots> = (cur @ w) # splitOn sep [] (join [sep] rest)" by simp
    also have "\<dots> = (cur @ w) # rest"
      using Cons.IH [of "[]"] Cons Cons.prems by simp
    finally show ?thesis by simp
  qed
qed

lemma set_join: "set (join sep ws) \<subseteq> set sep \<union> \<Union> (set ` set ws)"
  by (induction sep ws rule: join.induct) auto

lemma resolveSegment_subset: "set (resolveSegment out p) \<subseteq> insert p (set out)"
proof -
  have "set (butlast out) \<subseteq> set out" by (meson in_set_butlastD subsetI)
  then show ?thesis unfolding resolveSegment_def by (simp add: subset_insertI2)
qed

lemma resolveSegment_no_dots:
  assumes "\<forall>q\<in>set out. q \<noteq> js ''.'' \<and> q \<noteq> js ''..''"
  shows "\<forall>q\<in>set (resolveSegment out p). q \<noteq> js ''.'' \<and> q \<noteq> js ''..''"
proof -
  have "set (butlast out) \<subseteq> set out" by (meson in_set_butlastD subsetI)
  with assms show ?thesis unfolding resolveSegment_def by (simp add: subset_iff)
qed

lemma resolved_from_parts:
  "\<forall>p\<in>set acc. Q p \<Longrightarrow> \<forall>p\<in>set parts. Q p \<Longrightarrow>
     \<forall>p\<in>set (foldl resolveSegment acc parts). Q p"
proof (induction parts arbitrary: acc)
  case Nil
  then show ?case by simp
next
  case (Cons p parts)
  have "\<forall>q\<in>set (resolveSegment acc p). Q q"
    using Cons.prems resolveSegment_subset [of acc p] by (simp add: subset_iff) blast
  moreover have "\<forall>q\<in>set parts. Q q" using Cons.prems(2) by simp
  ultimately have "\<forall>q\<in>set (foldl resolveSegment (resolveSegment acc p) parts). Q q"
    by (rule Cons.IH)
  then show ?case by simp
qed

lemma resolved_no_dots:
  "\<forall>p\<in>set acc. p \<noteq> js ''.'' \<and> p \<noteq> js ''..'' \<Longrightarrow>
     \<forall>p\<in>set (foldl resolveSegment acc parts). p \<noteq> js ''.'' \<and> p \<noteq> js ''..''"
proof (induction parts arbitrary: acc)
  case Nil
  then show ?case by simp
next
  case (Cons p parts)
  have "\<forall>q\<in>set (foldl resolveSegment (resolveSegment acc p) parts).
      q \<noteq> js ''.'' \<and> q \<noteq> js ''..''"
    by (rule Cons.IH) (rule resolveSegment_no_dots [OF Cons.prems])
  then show ?case by simp
qed

lemma resolve_plain:
  "\<forall>p\<in>set out. p \<noteq> js ''.'' \<and> p \<noteq> js ''..'' \<Longrightarrow>
     foldl resolveSegment acc out = acc @ out"
  by (induction out arbitrary: acc) (auto simp: resolveSegment_def)

lemma normalizePath_segments: "normalizePath baseDir href = join (js ''/'') (segmentsOf baseDir href)"
  by (simp add: normalizePath_def segmentsOf_def Let_def)

lemma segments_clean:
  assumes "p \<in> set (segmentsOf baseDir href)"
  shows "p \<noteq> [] \<and> 0x2F \<notin> set p \<and> p \<noteq> js ''.'' \<and> p \<noteq> js ''..''"
proof -
  define full where "full = baseDir @ hd (splitOn 0x23 [] href)"
  define parts where "parts = filter (\<lambda>p. length p > 0) (splitOn 0x2F [] full)"
  have seg: "segmentsOf baseDir href = foldl resolveSegment [] parts"
    by (simp add: segmentsOf_def parts_def full_def)
  have "\<forall>p\<in>set (splitOn 0x2F [] full). 0x2F \<notin> set p"
    by (rule splitOn_no_sep) simp
  then have parts: "\<forall>p\<in>set parts. p \<noteq> [] \<and> 0x2F \<notin> set p"
    by (simp add: parts_def)
  have nil: "\<forall>p\<in>set ([] :: jsstring list). p \<noteq> [] \<and> 0x2F \<notin> set p" by simp
  have a: "\<forall>p\<in>set (foldl resolveSegment [] parts). p \<noteq> [] \<and> 0x2F \<notin> set p"
    by (rule resolved_from_parts [OF nil parts])
  have b: "\<forall>p\<in>set (foldl resolveSegment [] parts). p \<noteq> js ''.'' \<and> p \<noteq> js ''..''"
    by (rule resolved_no_dots) simp
  show ?thesis using assms a b unfolding seg by blast
qed

lemma renormalize_segments:
  assumes "\<forall>p\<in>set out. p \<noteq> [] \<and> 0x2F \<notin> set p \<and> p \<noteq> js ''.'' \<and> p \<noteq> js ''..''"
  shows "foldl resolveSegment []
           (filter (\<lambda>p. length p > 0) (splitOn 0x2F [] (join (js ''/'') out))) = out"
proof (cases "out = []")
  case True
  then show ?thesis by simp
next
  case False
  have sep: "js ''/'' = [0x2F]" by (simp add: js_def)
  have "splitOn 0x2F [] (join (js ''/'') out) = out"
    using splitOn_join [OF False, of "0x2F" "[]"] assms False by (simp add: sep)
  moreover have "filter (\<lambda>p. length p > 0) out = out"
    using assms by (simp add: filter_id_conv)
  ultimately show ?thesis using assms by (simp add: resolve_plain)
qed

lemma segmentsOf_normalized:
  "segmentsOf (normalizePath baseDir href) [] = segmentsOf baseDir href"
proof -
  have "\<forall>p\<in>set (segmentsOf baseDir href).
      p \<noteq> [] \<and> 0x2F \<notin> set p \<and> p \<noteq> js ''.'' \<and> p \<noteq> js ''..''"
    using segments_clean by blast
  from renormalize_segments [OF this]
  have "foldl resolveSegment []
      (filter (\<lambda>p. length p > 0) (splitOn 0x2F [] (normalizePath baseDir href)))
      = segmentsOf baseDir href"
    by (simp only: normalizePath_segments)
  then show ?thesis by (simp add: segmentsOf_def [of "normalizePath baseDir href"])
qed

lemma normalizePath_as_baseDir:
  "normalizePath (normalizePath baseDir href) [] = normalizePath baseDir href"
  by (simp only: normalizePath_segments [of "normalizePath baseDir href"] segmentsOf_normalized)
     (simp only: normalizePath_segments)

lemma normalizePath_as_href:
  assumes "0x23 \<notin> set (normalizePath baseDir href)"
  shows "normalizePath [] (normalizePath baseDir href) = normalizePath baseDir href"
proof -
  have "hd (splitOn 0x23 [] (normalizePath baseDir href)) = normalizePath baseDir href"
    using assms by (simp add: splitOn_without_sep)
  then have "segmentsOf [] (normalizePath baseDir href)
      = segmentsOf (normalizePath baseDir href) []"
    by (simp add: segmentsOf_def)
  then show ?thesis
    using normalizePath_as_baseDir [of baseDir href]
    by (simp only: normalizePath_segments [of "[]"] normalizePath_segments [of _ "[]"])
qed

lemma splitOn_keeps_out:
  "x \<notin> set cur \<Longrightarrow> x \<notin> set s \<Longrightarrow> \<forall>p\<in>set (splitOn sep cur s). x \<notin> set p"
proof (induction s arbitrary: cur)
  case Nil
  then show ?case by simp
next
  case (Cons c s)
  have x: "x \<noteq> c" "x \<notin> set s" using Cons.prems(2) by auto
  show ?case
  proof (cases "c = sep")
    case True
    have "\<forall>p\<in>set (splitOn sep [] s). x \<notin> set p" by (rule Cons.IH) (simp_all add: x)
    with True Cons.prems(1) show ?thesis by simp
  next
    case False
    have "\<forall>p\<in>set (splitOn sep (cur @ [c]) s). x \<notin> set p"
      by (rule Cons.IH) (use x Cons.prems(1) in simp_all)
    with False show ?thesis by simp
  qed
qed

lemma no_hash_normalizePath:
  assumes "0x23 \<notin> set baseDir"
  shows "0x23 \<notin> set (normalizePath baseDir href)"
proof -
  obtain c rest where sp: "splitOn 0x23 [] href = c # rest"
    using splitOn_nonempty [of "0x23" "[]" href] by (cases "splitOn 0x23 [] href") auto
  have "\<forall>p\<in>set (splitOn 0x23 [] href). 0x23 \<notin> set p"
    by (rule splitOn_no_sep) simp
  then have clean: "0x23 \<notin> set (hd (splitOn 0x23 [] href))" by (simp add: sp)
  define full where "full = baseDir @ hd (splitOn 0x23 [] href)"
  define parts where "parts = filter (\<lambda>p. length p > 0) (splitOn 0x2F [] full)"
  have seg: "segmentsOf baseDir href = foldl resolveSegment [] parts"
    by (simp add: segmentsOf_def parts_def full_def)
  have full: "0x23 \<notin> set full" using assms clean by (simp add: full_def)
  have "\<forall>p\<in>set (splitOn 0x2F [] full). 0x23 \<notin> set p"
    by (rule splitOn_keeps_out) (simp_all add: full)
  then have parts: "\<forall>p\<in>set parts. 0x23 \<notin> set p" by (simp add: parts_def)
  have nil: "\<forall>p\<in>set ([] :: jsstring list). 0x23 \<notin> set p" by simp
  have "\<forall>p\<in>set (foldl resolveSegment [] parts). 0x23 \<notin> set p"
    by (rule resolved_from_parts [OF nil parts])
  then have segs: "\<forall>p\<in>set (segmentsOf baseDir href). 0x23 \<notin> set p" by (simp only: seg)
  have "0x23 \<notin> set (js ''/'')" by (simp add: js_def)
  with segs show ?thesis
    using set_join [of "js ''/''" "segmentsOf baseDir href"]
    unfolding normalizePath_segments by blast
qed

text \<open>
  C4, as amended. An already normalized path is left unchanged when it is normalized
  again: as \<open>baseDir\<close> with an empty \<open>href\<close> for every \<open>baseDir\<close> and \<open>href\<close>, and as
  \<open>href\<close> against the empty \<open>baseDir\<close> whenever \<open>baseDir\<close> contains no \<open>#\<close> (the fragment is
  stripped from \<open>href\<close> only, so a \<open>#\<close> of \<open>baseDir\<close> stays in the result). The two concrete
  paths of the claim are as stated, and \<open>..\<close> on an empty stack of segments changes nothing.
\<close>

theorem normalizePath_idempotent:
  "normalizePath (normalizePath baseDir href) [] = normalizePath baseDir href
   \<and> (0x23 \<notin> set baseDir \<longrightarrow>
        normalizePath [] (normalizePath baseDir href) = normalizePath baseDir href)
   \<and> normalizePath (js ''a/b/'') (js ''../c.html'') = js ''a/c.html''
   \<and> normalizePath (baseDirOf (js ''OEBPS/content.opf'')) (js ''text/ch1.xhtml'')
       = js ''OEBPS/text/ch1.xhtml''
   \<and> resolveSegment [] (js ''..'') = []
   \<and> normalizePath [] (js ''../c.html'') = js ''c.html''"
proof -
  have e1: "normalizePath (js ''a/b/'') (js ''../c.html'') = js ''a/c.html''"
    by (simp add: normalizePath_def js_def resolveSegment_def)
  have e2: "normalizePath (baseDirOf (js ''OEBPS/content.opf'')) (js ''text/ch1.xhtml'')
       = js ''OEBPS/text/ch1.xhtml''"
    by (simp add: normalizePath_def js_def resolveSegment_def baseDirOf_def lastIndexOf_def)
  have e3: "resolveSegment [] (js ''..'') = []"
    by (simp add: js_def resolveSegment_def)
  have e4: "normalizePath [] (js ''../c.html'') = js ''c.html''"
    by (simp add: normalizePath_def js_def resolveSegment_def)
  show ?thesis
    using normalizePath_as_baseDir [of baseDir href]
      normalizePath_as_href [OF no_hash_normalizePath, of baseDir href] e1 e2 e3 e4
    by blast
qed

theorem normalizePath_idempotent_witness:
  "0x23 \<notin> set (js ''a/b/'')
   \<and> normalizePath [] (normalizePath (js ''a/b/'') (js ''../c.html''))
       = normalizePath (js ''a/b/'') (js ''../c.html'')"
proof -
  have h: "0x23 \<notin> set (js ''a/b/'')" by (simp add: js_def)
  show ?thesis
    using normalizePath_idempotent [of "js ''a/b/''" "js ''../c.html''"] h by blast
qed

text \<open>
  C4 as stated fails for a \<open>baseDir\<close> with a \<open>#\<close>: \<open>normalizePath "a#b/" "c"\<close> is \<open>a#b/c\<close>,
  and normalizing \<open>a#b/c\<close> strips it to \<open>a\<close>.
\<close>

theorem normalizePath_not_idempotent:
  "normalizePath [] (normalizePath (js ''a#b/'') (js ''c''))
     \<noteq> normalizePath (js ''a#b/'') (js ''c'')"
  by (simp add: normalizePath_def js_def resolveSegment_def)

section \<open>Properties of slugify\<close>

lemma replaceAll_oneOf: "replaceAll (oneOf P) [] left s = filter (\<lambda>c. \<not> P c) s"
  by (induction s arbitrary: left) (simp_all add: oneOf_def)

lemma drop_runLength: "drop (runLength P s) s = dropWhile P s"
  by (simp add: runLength_def dropWhile_eq_drop)

lemma runLength_Cons: "runLength P (c # cs) = (if P c then Suc (runLength P cs) else 0)"
  by (simp add: runLength_def)

lemma collapseRuns_inRun:
  "collapseRuns True s = collapseRuns False (dropWhile (\<lambda>c. \<not> isSlugChar c) s)"
  by (induction s) simp_all

lemma replaceAll_someOf:
  "replaceAll (someOf (\<lambda>c. \<not> isSlugChar c)) [0x5F] left s = collapseRuns False s"
proof (induction "length s" arbitrary: s left rule: less_induct)
  case less
  show ?case
  proof (cases s)
    case Nil
    then show ?thesis by simp
  next
    case (Cons c cs)
    show ?thesis
    proof (cases "isSlugChar c")
      case True
      have "replaceAll (someOf (\<lambda>c. \<not> isSlugChar c)) [0x5F] (left @ [c]) cs
          = collapseRuns False cs"
        by (rule less.hyps) (simp add: Cons)
      with True show ?thesis by (simp add: Cons someOf_def runLength_Cons)
    next
      case False
      have "replaceAll (someOf (\<lambda>c. \<not> isSlugChar c)) [0x5F]
              (left @ c # take (runLength (\<lambda>c. \<not> isSlugChar c) cs) cs)
              (dropWhile (\<lambda>c. \<not> isSlugChar c) cs)
          = collapseRuns False (dropWhile (\<lambda>c. \<not> isSlugChar c) cs)"
        by (rule less.hyps) (simp add: Cons le_imp_less_Suc length_dropWhile_le)
      with False show ?thesis
        by (simp add: Cons someOf_def runLength_Cons drop_runLength collapseRuns_inRun)
    qed
  qed
qed

lemma runLength_all: "runLength P s = length s \<longleftrightarrow> (\<forall>c\<in>set s. P c)"
  unfolding runLength_def by (metis length_takeWhile_le takeWhile_eq_all_conv
      append_eq_conv_conj takeWhile_dropWhile_id append_Nil2 length_0_conv length_drop diff_self_eq_0 dropWhile_eq_drop)

lemma dropWhile_snoc:
  "\<not> P c \<or> (\<exists>x\<in>set xs. \<not> P x) \<Longrightarrow> dropWhile P (xs @ [c]) = dropWhile P xs @ [c]"
  by (induction xs) auto

lemma strip_trailing:
  assumes "left \<noteq> []"
  shows "replaceAll edgeUnderscores [] left s = rev (dropWhile (\<lambda>c. c = 0x5F) (rev s))"
  using assms
proof (induction s arbitrary: left)
  case Nil
  then show ?case by simp
next
  case (Cons c cs)
  let ?U = "\<lambda>c::code_unit. c = 0x5F"
  show ?case
  proof (cases "\<forall>x\<in>set (c # cs). ?U x")
    case True
    then have n: "runLength ?U (c # cs) = Suc (length cs)"
      using runLength_all [of ?U "c # cs"] by simp
    have "dropWhile ?U (rev (c # cs)) = []" using True by (simp add: dropWhile_eq_Nil_conv)
    then show ?thesis
      using Cons.prems n by (simp add: edgeUnderscores_def)
  next
    case False
    then have n: "runLength ?U (c # cs) \<noteq> length (c # cs)"
      using runLength_all [of ?U "c # cs"] by blast
    have none: "edgeUnderscores left (c # cs) = None"
      using Cons.prems n by (simp add: edgeUnderscores_def Let_def)
    have IH: "replaceAll edgeUnderscores [] (left @ [c]) cs = rev (dropWhile ?U (rev cs))"
      by (rule Cons.IH) simp
    have "rev (dropWhile ?U (rev cs @ [c])) = c # rev (dropWhile ?U (rev cs))"
      using False dropWhile_snoc [of ?U c "rev cs"] by auto
    then show ?thesis using none IH by simp
  qed
qed

lemma strip_edges:
  "replaceAll edgeUnderscores [] [] s
     = rev (dropWhile (\<lambda>c. c = 0x5F) (rev (dropWhile (\<lambda>c. c = 0x5F) s)))"
proof (cases s)
  case Nil
  then show ?thesis by simp
next
  case (Cons c cs)
  let ?U = "\<lambda>c::code_unit. c = 0x5F"
  show ?thesis
  proof (cases "?U c")
    case True
    have "replaceAll edgeUnderscores [] ([] @ take (Suc (runLength ?U cs)) (c # cs))
            (drop (runLength ?U cs) cs)
        = rev (dropWhile ?U (rev (drop (runLength ?U cs) cs)))"
      by (rule strip_trailing) simp
    then show ?thesis
      using True by (simp add: Cons edgeUnderscores_def runLength_Cons drop_runLength)
  next
    case False
    have t: "replaceAll edgeUnderscores [] ([] @ [c]) cs = rev (dropWhile ?U (rev cs))"
      by (rule strip_trailing) simp
    have "dropWhile ?U (rev cs @ [c]) = dropWhile ?U (rev cs) @ [c]"
      using False dropWhile_snoc [of ?U c "rev cs"] by simp
    then show ?thesis
      using False t by (simp add: Cons edgeUnderscores_def runLength_Cons)
  qed
qed

text \<open>
  C8, as amended. \<open>slugify s\<close> is the result of lowercasing, trimming, stripping the
  straight quotes \<open>'\<close> and \<open>"\<close>, collapsing every run of characters outside \<open>[a-z0-9]\<close> to a
  single underscore, trimming leading and trailing underscores, truncating to 80
  characters and substituting \<open>book\<close> when the result is empty. Curly quotes are not
  stripped: they are characters outside \<open>[a-z0-9]\<close> like any other.
\<close>

theorem slugify_rule: "slugify s = slugRule isStraightQuote s"
proof -
  have u: "js ''_'' = [0x5F]" by (simp add: js_def)
  show ?thesis
    unfolding slugify_def slugRule_def Let_def u
    by (simp only: replaceAll_oneOf replaceAll_someOf strip_edges)
qed

text \<open>
  C8 as stated, with the curly quotes stripped, fails: \<open>slugify\<close> of \<open>a\<close>, U+2019, \<open>b\<close> is
  \<open>a_b\<close>, and the rule of the specification gives \<open>ab\<close>.
\<close>

theorem slugify_keeps_curly_quotes:
  "slugify [0x61, 0x2019, 0x62] = js ''a_b''
   \<and> slugRule isStraightOrCurlyQuote [0x61, 0x2019, 0x62] = js ''ab''
   \<and> slugify [0x61, 0x2019, 0x62] \<noteq> slugRule isStraightOrCurlyQuote [0x61, 0x2019, 0x62]"
  by (simp add: slugify_def slugRule_def toLowerCase_def lowerUnit_def trim_def isSpace_def
      oneOf_def someOf_def edgeUnderscores_def runLength_def isStraightQuote_def
      isStraightOrCurlyQuote_def isSlugChar_def js_def)

section \<open>Properties of the sort\<close>

lemma mset_insertBy: "mset (insertBy cmp x ys) = add_mset x (mset ys)"
  by (induction ys) simp_all

lemma mset_sortBy: "mset (sortBy cmp xs) = mset xs"
  unfolding sortBy_def by (induction xs) (simp_all add: mset_insertBy)

lemma set_insertBy: "set (insertBy cmp x ys) = insert x (set ys)"
  by (induction ys) auto

lemma sorted_insertBy:
  assumes total: "\<forall>a b. cmp a b \<le> 0 \<or> cmp b a \<le> 0"
    and trans: "\<forall>a b c. cmp a b \<le> 0 \<and> cmp b c \<le> 0 \<longrightarrow> cmp a c \<le> 0"
    and sorted: "sorted_wrt (\<lambda>a b. cmp a b \<le> 0) ys"
  shows "sorted_wrt (\<lambda>a b. cmp a b \<le> 0) (insertBy cmp x ys)"
  using sorted
proof (induction ys)
  case Nil
  then show ?case by simp
next
  case (Cons y ys)
  have tail: "sorted_wrt (\<lambda>a b. cmp a b \<le> 0) ys" and head: "\<forall>z\<in>set ys. cmp y z \<le> 0"
    using Cons.prems by simp_all
  show ?case
  proof (cases "cmp x y \<le> 0")
    case True
    have "cmp x z \<le> 0" if "z \<in> set ys" for z
    proof -
      have "cmp y z \<le> 0" using head that by blast
      with True trans show ?thesis by blast
    qed
    with True tail head show ?thesis by simp
  next
    case False
    then have yx: "cmp y x \<le> 0" using total by blast
    have "sorted_wrt (\<lambda>a b. cmp a b \<le> 0) (insertBy cmp x ys)"
      by (rule Cons.IH [OF tail])
    with False yx head show ?thesis by (simp add: set_insertBy)
  qed
qed

lemma sorted_sortBy:
  assumes "\<forall>a b. cmp a b \<le> 0 \<or> cmp b a \<le> 0"
    and "\<forall>a b c. cmp a b \<le> 0 \<and> cmp b c \<le> 0 \<longrightarrow> cmp a c \<le> 0"
  shows "sorted_wrt (\<lambda>a b. cmp a b \<le> 0) (sortBy cmp xs)"
  unfolding sortBy_def
  by (induction xs) (simp_all add: sorted_insertBy [OF assms])

text \<open>
  The sort is stable: the elements that the comparison does not tell apart from a given
  one keep the order that they had.
\<close>

lemma filter_insertBy:
  assumes trans: "\<forall>a b c. cmp a b \<le> 0 \<and> cmp b c \<le> 0 \<longrightarrow> cmp a c \<le> 0"
  shows "filter (\<lambda>z. cmp a z \<le> 0 \<and> cmp z a \<le> 0) (insertBy cmp x ys)
     = filter (\<lambda>z. cmp a z \<le> 0 \<and> cmp z a \<le> 0) (x # ys)"
proof (induction ys)
  case Nil
  then show ?case by simp
next
  case (Cons y ys)
  show ?case
  proof (cases "cmp x y \<le> 0")
    case True
    then show ?thesis by simp
  next
    case False
    have "\<not> ((cmp a x \<le> 0 \<and> cmp x a \<le> 0) \<and> (cmp a y \<le> 0 \<and> cmp y a \<le> 0))"
      using False trans by blast
    then show ?thesis using False Cons.IH by auto
  qed
qed

lemma filter_sortBy:
  assumes "\<forall>a b c. cmp a b \<le> 0 \<and> cmp b c \<le> 0 \<longrightarrow> cmp a c \<le> 0"
  shows "filter (\<lambda>z. cmp a z \<le> 0 \<and> cmp z a \<le> 0) (sortBy cmp xs)
     = filter (\<lambda>z. cmp a z \<le> 0 \<and> cmp z a \<le> 0) xs"
proof (induction xs)
  case Nil
  then show ?case by (simp add: sortBy_def)
next
  case (Cons x xs)
  have "sortBy cmp (x # xs) = insertBy cmp x (sortBy cmp xs)" by (simp add: sortBy_def)
  then show ?case
    using filter_insertBy [OF assms, of a x "sortBy cmp xs"] Cons.IH by simp
qed

section \<open>Properties of the byte-wise order and of the case-blind collation\<close>

lemma bytewiseLess_irrefl: "\<not> bytewiseLess a a"
  by (induction a) simp_all

lemma bytewiseLess_trans: "bytewiseLess a b \<Longrightarrow> bytewiseLess b c \<Longrightarrow> bytewiseLess a c"
proof (induction a b arbitrary: c rule: bytewiseLess.induct)
  case (1 xs)
  then show ?case by simp
next
  case (2 y ys)
  then show ?case by (cases c) simp_all
next
  case (3 x xs y ys)
  then show ?case by (cases c) auto
qed

lemma bytewiseLess_total: "a \<noteq> b \<Longrightarrow> bytewiseLess a b \<or> bytewiseLess b a"
proof (induction a b rule: bytewiseLess.induct)
  case (1 xs)
  then show ?case by (cases xs) simp_all
next
  case (2 y ys)
  then show ?case by simp
next
  case (3 x xs y ys)
  then show ?case by (cases "x = y") auto
qed

lemma caseBlindCompare_le:
  "caseBlindCompare a b \<le> 0 \<longleftrightarrow> \<not> bytewiseLess (map asciiFold b) (map asciiFold a)"
  using bytewiseLess_trans [of "map asciiFold a" "map asciiFold b" "map asciiFold a"]
    bytewiseLess_irrefl [of "map asciiFold a"]
  by (auto simp: caseBlindCompare_def)

lemma caseBlindCompare_total: "\<forall>a b. caseBlindCompare a b \<le> 0 \<or> caseBlindCompare b a \<le> 0"
  unfolding caseBlindCompare_le
  using bytewiseLess_trans bytewiseLess_irrefl by blast

lemma caseBlindCompare_trans:
  "\<forall>a b c. caseBlindCompare a b \<le> 0 \<and> caseBlindCompare b c \<le> 0 \<longrightarrow> caseBlindCompare a c \<le> 0"
proof (intro allI impI)
  fix a b c
  assume h: "caseBlindCompare a b \<le> 0 \<and> caseBlindCompare b c \<le> 0"
  let ?a = "map asciiFold a" and ?b = "map asciiFold b" and ?c = "map asciiFold c"
  have ba: "\<not> bytewiseLess ?b ?a" and cb: "\<not> bytewiseLess ?c ?b"
    using h by (simp_all add: caseBlindCompare_le)
  have "\<not> bytewiseLess ?c ?a"
  proof
    assume ca: "bytewiseLess ?c ?a"
    show False
    proof (cases "?a = ?b")
      case True
      with ca cb show False by simp
    next
      case False
      then have "bytewiseLess ?a ?b" using ba bytewiseLess_total by blast
      with ca have "bytewiseLess ?c ?b" by (rule bytewiseLess_trans)
      with cb show False by simp
    qed
  qed
  then show "caseBlindCompare a c \<le> 0" by (simp add: caseBlindCompare_le)
qed

section \<open>Properties of the package parser\<close>

lemma prototype_name_not_text: "p \<in> set objectPrototypeNames \<Longrightarrow> \<not> isTextDocument p"
  by (auto simp: objectPrototypeNames_def isTextDocument_def endsWithCI_def js_def asciiFold_def)

lemma hasEntry_text: "isTextDocument p \<Longrightarrow> hasEntry files p \<longleftrightarrow> p \<in> set (keysOf files)"
  using prototype_name_not_text by (auto simp: hasEntry_def)

lemma spineLoop_paths:
  assumes "spineLoop files manifestMap baseDir tags acc = Inr paths"
    and "\<forall>p\<in>set acc. p \<in> set (keysOf files) \<and> isTextDocument p"
  shows "\<forall>p\<in>set paths. p \<in> set (keysOf files) \<and> isTextDocument p"
  using assms
proof (induction tags arbitrary: acc)
  case Nil
  then show ?case by simp
next
  case (Cons tag tags)
  note run = Cons.prems(1) and inv = Cons.prems(2)
  show ?case
  proof (cases "getAttr tag (js ''idref'')")
    case None
    then have "spineLoop files manifestMap baseDir tags acc = Inr paths"
      using run by simp
    from Cons.IH [OF this inv] show ?thesis .
  next
    case (Some idref)
    show ?thesis
    proof (cases "getProperty manifestMap idref")
      case Undefined
      then have "spineLoop files manifestMap baseDir tags acc = Inr paths"
        using run Some by simp
      from Cons.IH [OF this inv] show ?thesis .
    next
      case Inherited
      then have False using run Some by simp
      then show ?thesis ..
    next
      case (Text href)
      define p where "p = normalizePath baseDir href"
      show ?thesis
      proof (cases "isTextDocument p \<and> hasEntry files p")
        case True
        then have "p \<in> set (keysOf files)" using hasEntry_text by blast
        with True inv
        have acc: "\<forall>x\<in>set (acc @ [p]). x \<in> set (keysOf files) \<and> isTextDocument x"
          by simp
        have "spineLoop files manifestMap baseDir tags (acc @ [p]) = Inr paths"
          using run Some Text True by (simp add: Let_def p_def)
        from Cons.IH [OF this acc] show ?thesis .
      next
        case False
        then have "spineLoop files manifestMap baseDir tags acc = Inr paths"
          using run Some Text by (simp add: Let_def p_def split: if_splits)
        from Cons.IH [OF this inv] show ?thesis .
      qed
    qed
  qed
qed

text \<open>
  Every path that the package parser returns, from the spine or from the fallback, is a
  key of the archive with a text-document extension.
\<close>

lemma reading_order_in_archive:
  assumes "extractSpineHtmlPaths localeCompare files opfPath = Inr paths"
  shows "\<forall>p\<in>set paths. p \<in> set (keysOf files) \<and> isTextDocument p"
proof (cases "spinePathsOf files opfPath")
  case (Inl e)
  with assms show ?thesis by (simp add: extractSpineHtmlPaths_def)
next
  case (Inr spinePaths)
  have spine: "\<forall>p\<in>set spinePaths. p \<in> set (keysOf files) \<and> isTextDocument p"
    using Inr spineLoop_paths [of files _ _ _ "[]" spinePaths]
    by (cases "entryText files opfPath") (simp_all add: spinePathsOf_def)
  show ?thesis
  proof (cases "spinePaths = []")
    case True
    then have "paths = fallbackPaths localeCompare files"
      using assms Inr by (simp add: extractSpineHtmlPaths_def)
    then have "set paths = set (filter isTextDocument (keysOf files))"
      using mset_sortBy [of localeCompare "filter isTextDocument (keysOf files)"]
      by (metis fallbackPaths_def set_mset_mset)
    then show ?thesis by simp
  next
    case False
    then have "paths = spinePaths" using assms Inr by (simp add: extractSpineHtmlPaths_def)
    with spine show ?thesis by simp
  qed
qed

text \<open>
  The spine loop does not fail when no \<open>idref\<close> of the spine reads an inherited property,
  that is, when every \<open>idref\<close> that is the name of a property of \<^verbatim>\<open>Object.prototype\<close> is
  the \<open>id\<close> of a manifest item.
\<close>

lemma spineLoop_total:
  assumes "\<forall>tag\<in>set tags. \<forall>idref. getAttr tag (js ''idref'') = Some idref \<longrightarrow>
      getProperty manifestMap idref \<noteq> Inherited"
  shows "\<exists>paths. spineLoop files manifestMap baseDir tags acc = Inr paths"
  using assms
proof (induction tags arbitrary: acc)
  case Nil
  then show ?case by simp
next
  case (Cons tag tags)
  have rest: "\<exists>paths. spineLoop files manifestMap baseDir tags acc' = Inr paths" for acc'
    using Cons.IH Cons.prems by simp
  show ?case
  proof (cases "getAttr tag (js ''idref'')")
    case None
    then show ?thesis using rest by simp
  next
    case (Some idref)
    then have "getProperty manifestMap idref \<noteq> Inherited" using Cons.prems by simp
    then show ?thesis
      using Some rest by (cases "getProperty manifestMap idref") (simp_all add: Let_def)
  qed
qed

section \<open>The claims on the container resolver, the fallback and the spine\<close>

lemma findOpfPath_no_container:
  "\<forall>p\<in>set (keysOf files). \<not> isContainer p \<Longrightarrow> findOpfPath files = Inl ContainerNotFound"
proof -
  assume "\<forall>p\<in>set (keysOf files). \<not> isContainer p"
  then have "find isContainer (keysOf files) = None" by (simp add: find_None_iff)
  then show ?thesis by (simp add: findOpfPath_def)
qed

lemma firstMatch_None: "(\<forall>n. groupAt (drop n s) = None) \<Longrightarrow> firstMatch groupAt s = None"
proof (induction s)
  case Nil
  then show ?case using Nil [THEN spec, of 0] by simp
next
  case (Cons c cs)
  have here: "groupAt (c # cs) = None" using Cons.prems [THEN spec, of 0] by simp
  have "\<forall>n. groupAt (drop n cs) = None"
  proof
    fix n show "groupAt (drop n cs) = None" using Cons.prems [THEN spec, of "Suc n"] by simp
  qed
  then show ?case using here Cons.IH by simp
qed

lemma entryText_key: "path \<in> set (keysOf files) \<Longrightarrow> \<exists>t. entryText files path = Inr t"
proof -
  assume "path \<in> set (keysOf files)"
  then have "map_of files path \<noteq> None" by (simp add: keysOf_def map_of_eq_None_iff)
  then show ?thesis by (auto simp: entryText_def)
qed

text \<open>
  Without an entry that ends in \<open>META-INF/container.xml\<close> the resolver fails, and so it
  does when the text \<open>full-path="\<close> occurs nowhere in that entry.
\<close>

lemma findOpfPath_no_attribute:
  assumes "find isContainer (keysOf files) = Some container"
    and "entryText files container = Inr xml"
    and "\<forall>n. \<not> startsWithCI (js ''full-path='' @ [dquote]) (drop n xml)"
  shows "findOpfPath files = Inl OpfPathNotFound"
proof -
  have "isContainer container" using assms(1) by (auto simp: find_Some_iff)
  then have ne: "container \<noteq> []"
    by (auto simp: isContainer_def endsWith_def toLowerCase_def js_def)
  have "firstMatch fullPathAt xml = None"
    by (rule firstMatch_None) (simp add: fullPathAt_def assms(3))
  then show ?thesis using assms(1,2) ne by (simp add: findOpfPath_def)
qed

text \<open>The entry of the container is an entry of the archive, so reading it does not fail.\<close>

lemma findOpfPath_reads_container:
  assumes "find isContainer (keysOf files) = Some container"
  shows "\<exists>xml. entryText files container = Inr xml"
proof -
  have "container \<in> set (keysOf files)" using assms by (auto simp: find_Some_iff)
  then show ?thesis by (rule entryText_key)
qed

text \<open>
  A package path that names an inherited property and no entry of the archive makes the
  package parser fail.
\<close>

lemma extractSpineHtmlPaths_inherited_path:
  assumes "opfPath \<notin> set (keysOf files)" "opfPath \<in> set objectPrototypeNames"
  shows "extractSpineHtmlPaths localeCompare files opfPath = Inl TypeError"
proof -
  have "map_of files opfPath = None" using assms(1) by (simp add: keysOf_def map_of_eq_None_iff)
  then have "entryText files opfPath = Inl TypeError" using assms(2) by (simp add: entryText_def)
  then show ?thesis by (simp add: extractSpineHtmlPaths_def spinePathsOf_def)
qed

text \<open>
  C5. The claim holds for a \<open>full-path\<close> in double quotes and fails for one in single
  quotes, which XML allows as well and which \<^verbatim>\<open>getAttr\<close> of the same program accepts: for
  the container document \<^verbatim>\<open><rootfile full-path='OEBPS/content.opf'/>\<close> the resolver fails
  with "OPF path not found in container.xml", while the same document in double quotes
  gives \<open>OEBPS/content.opf\<close>, whatever the order of the attributes and the case of the
  entry name.
\<close>

theorem findOpfPath_single_quotes:
  "findOpfPath [(js ''META-INF/container.xml'',
       js ''<rootfile full-path='' @ sq ''OEBPS/content.opf'' @ js '' media-type='' @ sq ''x'' @ js ''/>'')]
     = Inl OpfPathNotFound
   \<and> getAttr (js ''<rootfile full-path='' @ sq ''OEBPS/content.opf'' @ js '' media-type='' @ sq ''x''
         @ js ''/>'') (js ''full-path'') = Some (js ''OEBPS/content.opf'')
   \<and> findOpfPath [(js ''mimetype'', js ''application/epub+zip''),
       (js ''META-INF/Container.XML'',
        js ''<rootfile media-type='' @ dq ''x'' @ js '' full-path='' @ dq ''OEBPS/content.opf'' @ js ''/>'')]
     = Inr (js ''OEBPS/content.opf'')"
  by code_simp

text \<open>
  C6, as amended. When the spine gives no usable entry and the archive has at least one
  key with a text-document extension, the fallback returns all such keys, each as often
  as it occurs among the keys, so at least one, sorted by \<^verbatim>\<open>localeCompare\<close>, the
  collation of the host (taken to be a total preorder), not by byte-wise order; the sort
  is stable, that is, the keys that the collation does not tell apart from a given key
  come in the order that they have among the keys of the archive.
\<close>

theorem fallback_sorted_by_localeCompare:
  assumes "\<forall>a b. localeCompare a b \<le> 0 \<or> localeCompare b a \<le> 0"
    and "\<forall>a b c. localeCompare a b \<le> 0 \<and> localeCompare b c \<le> 0 \<longrightarrow> localeCompare a c \<le> 0"
    and "spinePathsOf files opfPath = Inr []"
    and "\<exists>p\<in>set (keysOf files). isTextDocument p"
  shows "\<exists>paths. extractSpineHtmlPaths localeCompare files opfPath = Inr paths
     \<and> paths \<noteq> []
     \<and> mset paths = mset (filter isTextDocument (keysOf files))
     \<and> sorted_wrt (\<lambda>a b. localeCompare a b \<le> 0) paths
     \<and> (\<forall>k. filter (\<lambda>p. localeCompare k p \<le> 0 \<and> localeCompare p k \<le> 0) paths
            = filter (\<lambda>p. localeCompare k p \<le> 0 \<and> localeCompare p k \<le> 0)
                (filter isTextDocument (keysOf files)))"
proof -
  define paths where "paths = fallbackPaths localeCompare files"
  have r: "extractSpineHtmlPaths localeCompare files opfPath = Inr paths"
    using assms(3) by (simp add: extractSpineHtmlPaths_def paths_def)
  have m: "mset paths = mset (filter isTextDocument (keysOf files))"
    by (simp add: paths_def fallbackPaths_def mset_sortBy)
  have "filter isTextDocument (keysOf files) \<noteq> []"
    using assms(4) by (simp add: filter_empty_conv)
  then have ne: "paths \<noteq> []" using m by (metis mset_zero_iff)
  have s: "sorted_wrt (\<lambda>a b. localeCompare a b \<le> 0) paths"
    unfolding paths_def fallbackPaths_def by (rule sorted_sortBy [OF assms(1) assms(2)])
  have st: "\<forall>k. filter (\<lambda>p. localeCompare k p \<le> 0 \<and> localeCompare p k \<le> 0) paths
      = filter (\<lambda>p. localeCompare k p \<le> 0 \<and> localeCompare p k \<le> 0)
          (filter isTextDocument (keysOf files))"
    unfolding paths_def fallbackPaths_def using filter_sortBy [OF assms(2)] by blast
  show ?thesis using r m ne s st by blast
qed

theorem fallback_sorted_by_localeCompare_witness:
  "spinePathsOf [(js ''c.opf'', []), (js ''B.html'', []), (js ''a.html'', [])] (js ''c.opf'') = Inr []
   \<and> isTextDocument (js ''a.html'')
   \<and> (\<exists>paths. extractSpineHtmlPaths caseBlindCompare
          [(js ''c.opf'', []), (js ''B.html'', []), (js ''a.html'', [])] (js ''c.opf'') = Inr paths
        \<and> paths \<noteq> []
        \<and> mset paths = mset [js ''B.html'', js ''a.html'']
        \<and> sorted_wrt (\<lambda>a b. caseBlindCompare a b \<le> 0) paths)"
proof -
  have h3: "spinePathsOf [(js ''c.opf'', []), (js ''B.html'', []), (js ''a.html'', [])] (js ''c.opf'')
      = Inr []"
    by code_simp
  have t: "isTextDocument (js ''a.html'')" "isTextDocument (js ''B.html'')"
    "\<not> isTextDocument (js ''c.opf'')"
    by code_simp+
  have h4: "\<exists>p\<in>set (keysOf [(js ''c.opf'', []), (js ''B.html'', []), (js ''a.html'', [])]).
      isTextDocument p"
    using t by (simp add: keysOf_def)
  have k: "filter isTextDocument (keysOf [(js ''c.opf'', []), (js ''B.html'', []), (js ''a.html'', [])])
      = [js ''B.html'', js ''a.html'']"
    using t by (simp add: keysOf_def)
  show ?thesis
    using fallback_sorted_by_localeCompare
      [OF caseBlindCompare_total caseBlindCompare_trans h3 h4] h3 t(1)
    unfolding k by blast
qed

text \<open>
  C6 as stated fails: with a collation that ignores case, the fallback for the keys
  \<open>B.html\<close>, \<open>a.html\<close> is \<open>a.html\<close>, \<open>B.html\<close>, which is not in byte-wise order.
\<close>

theorem fallback_not_bytewise:
  "extractSpineHtmlPaths caseBlindCompare
      [(js ''c.opf'', []), (js ''B.html'', []), (js ''a.html'', [])] (js ''c.opf'')
     = Inr [js ''a.html'', js ''B.html'']
   \<and> \<not> sorted_wrt bytewiseLe [js ''a.html'', js ''B.html'']"
  by code_simp

text \<open>
  C9. Every path of the reading order is a key of the archive with a text-document
  extension (lemma \<open>reading_order_in_archive\<close>), and a spine entry without manifest item is
  dropped (lemma \<open>spineLoop_total\<close>), except when its \<open>idref\<close> is the name of a property
  that the manifest object inherits, such as \<open>constructor\<close>: then \<^verbatim>\<open>manifestMap[idref]\<close> is
  truthy, \<^verbatim>\<open>normalizePath\<close> throws, and the resolution fails instead of giving the one
  usable entry of the spine.
\<close>

theorem spine_inherited_idref_fails:
  "extractSpineHtmlPaths caseBlindCompare
     [(js ''OEBPS/content.opf'',
       js ''<manifest><item id='' @ dq ''c1'' @ js '' href='' @ dq ''text/ch1.xhtml''
       @ js ''/></manifest><spine><itemref idref='' @ dq ''constructor''
       @ js ''/><itemref idref='' @ dq ''c1'' @ js ''/></spine>''),
      (js ''OEBPS/text/ch1.xhtml'', [])]
     (js ''OEBPS/content.opf'') = Inl TypeError
   \<and> extractSpineHtmlPaths caseBlindCompare
     [(js ''OEBPS/content.opf'',
       js ''<manifest><item id='' @ dq ''c1'' @ js '' href='' @ dq ''text/ch1.xhtml''
       @ js ''/></manifest><spine><itemref idref='' @ dq ''missing''
       @ js ''/><itemref idref='' @ dq ''c1'' @ js ''/></spine>''),
      (js ''OEBPS/text/ch1.xhtml'', [])]
     (js ''OEBPS/content.opf'') = Inr [js ''OEBPS/text/ch1.xhtml'']"
  by code_simp

section \<open>Properties of the markup stripper\<close>

lemma runLength_pos: "0 < runLength P s \<longleftrightarrow> s \<noteq> [] \<and> P (hd s)"
  by (cases s) (simp_all add: runLength_def)

lemma runLength_less: "runLength P s < length s \<longleftrightarrow> (\<exists>x\<in>set s. \<not> P x)"
proof -
  have "runLength P s \<le> length s" by (simp add: runLength_def length_takeWhile_le)
  moreover have "runLength P s = length s \<longleftrightarrow> (\<forall>x\<in>set s. P x)" by (rule runLength_all)
  ultimately show ?thesis by (metis nat_less_le)
qed

lemma anyTagAt_None:
  "anyTagAt left (c # cs) = None
     \<longleftrightarrow> \<not> (c = 0x3C \<and> cs \<noteq> [] \<and> hd cs \<noteq> 0x3E \<and> 0x3E \<in> set cs)"
  by (auto simp: anyTagAt_def Let_def runLength_pos runLength_less)

lemma anyTagAt_left: "anyTagAt left s = anyTagAt [] s"
  by (simp add: anyTagAt_def)

lemma hasRawTag_Cons:
  "hasRawTag (c # cs)
     \<longleftrightarrow> (c = 0x3C \<and> cs \<noteq> [] \<and> hd cs \<noteq> 0x3E \<and> 0x3E \<in> set cs) \<or> hasRawTag cs"
  using anyTagAt_None [of "[]" c cs] by auto

declare hasRawTag.simps(2) [simp del]

lemma hasRawTag_prepend: "hasRawTag x \<Longrightarrow> hasRawTag (a @ x)"
  by (induction a) (simp_all add: hasRawTag_Cons)

lemma hasRawTag_append: "hasRawTag x \<Longrightarrow> hasRawTag (x @ b)"
proof (induction x)
  case Nil
  then show ?case by simp
next
  case (Cons c cs)
  then show ?case by (cases cs) (auto simp: hasRawTag_Cons)
qed

lemma hasRawTag_drop: "hasRawTag (drop n s) \<Longrightarrow> hasRawTag s"
  using hasRawTag_prepend [of "drop n s" "take n s"] by simp

lemma hasRawTag_after: "0x3C \<notin> set r \<Longrightarrow> hasRawTag (r @ x) \<longleftrightarrow> hasRawTag x"
  by (induction r) (simp_all add: hasRawTag_Cons)

lemma set_replaceAll: "set (replaceAll m r left s) \<subseteq> set r \<union> set s"
proof (induction "length s" arbitrary: s left rule: less_induct)
  case less
  show ?case
  proof (cases s)
    case Nil
    then show ?thesis by simp
  next
    case (Cons c cs)
    show ?thesis
    proof (cases "\<exists>k. m left (c # cs) = Some (Suc k)")
      case True
      then obtain k where k: "m left (c # cs) = Some (Suc k)" by blast
      have "set (replaceAll m r (left @ take (Suc k) (c # cs)) (drop k cs))
          \<subseteq> set r \<union> set (drop k cs)"
        by (rule less.hyps) (simp add: Cons)
      moreover have "set (drop k cs) \<subseteq> set cs" by (rule set_drop_subset)
      ultimately show ?thesis using k by (auto simp: Cons)
    next
      case False
      then have step: "replaceAll m r left (c # cs) = c # replaceAll m r (left @ [c]) cs"
        by (cases "m left (c # cs)") (auto split: nat.splits)
      have "set (replaceAll m r (left @ [c]) cs) \<subseteq> set r \<union> set cs"
        by (rule less.hyps) (simp add: Cons)
      then show ?thesis unfolding Cons step by auto
    qed
  qed
qed

text \<open>After the replacement of \<^verbatim>\<open>/<[^>]+>/g\<close> nothing matches that pattern.\<close>

lemma no_tag_after_strip: "\<not> hasRawTag (replaceAll anyTagAt (js '' '') left s)"
proof (induction "length s" arbitrary: s left rule: less_induct)
  case less
  have sp: "js '' '' = [0x20]" by (simp add: js_def)
  show ?case
  proof (cases s)
    case Nil
    then show ?thesis by simp
  next
    case (Cons c cs)
    show ?thesis
    proof (cases "\<exists>k. anyTagAt left (c # cs) = Some (Suc k)")
      case True
      then obtain k where k: "anyTagAt left (c # cs) = Some (Suc k)" by blast
      have "\<not> hasRawTag (replaceAll anyTagAt (js '' '') (left @ take (Suc k) (c # cs)) (drop k cs))"
        by (rule less.hyps) (simp add: Cons)
      then show ?thesis using k by (simp add: Cons sp hasRawTag_Cons)
    next
      case False
      then have none: "anyTagAt left (c # cs) = None"
        by (cases "anyTagAt left (c # cs)") (auto simp: anyTagAt_def Let_def split: if_splits)
      define R where "R = replaceAll anyTagAt (js '' '') (left @ [c]) cs"
      have step: "replaceAll anyTagAt (js '' '') left (c # cs) = c # R"
        using none by (simp add: R_def)
      have IH: "\<not> hasRawTag R" unfolding R_def by (rule less.hyps) (simp add: Cons)
      have "\<not> (c = 0x3C \<and> R \<noteq> [] \<and> hd R \<noteq> 0x3E \<and> 0x3E \<in> set R)"
      proof
        assume a: "c = 0x3C \<and> R \<noteq> [] \<and> hd R \<noteq> 0x3E \<and> 0x3E \<in> set R"
        have "set R \<subseteq> set (js '' '') \<union> set cs" unfolding R_def by (rule set_replaceAll)
        then have gt: "0x3E \<in> set cs" using a by (auto simp: sp)
        then obtain d ds where cs: "cs = d # ds" by (cases cs) auto
        have "d = 0x3E" using none a gt unfolding anyTagAt_None cs by auto
        then have "anyTagAt (left @ [c]) (d # ds) = None" by (simp add: anyTagAt_def Let_def)
        then have "R = d # replaceAll anyTagAt (js '' '') ((left @ [c]) @ [d]) ds"
          by (simp add: R_def cs)
        then have "hd R = 0x3E" using \<open>d = 0x3E\<close> by simp
        with a show False by simp
      qed
      then show ?thesis unfolding Cons step using IH by (simp add: hasRawTag_Cons)
    qed
  qed
qed

text \<open>
  A replacement whose matches do not start with \<open>>\<close> and whose replacement text is not
  empty and has neither \<open><\<close> nor \<open>>\<close> brings no raw tag syntax into a text.
\<close>

lemma replaceAll_hd:
  assumes m: "\<And>left c cs k. m left (c # cs) = Some (Suc k) \<Longrightarrow> c \<noteq> 0x3E"
    and r: "r \<noteq> []" "0x3E \<notin> set r"
    and out: "replaceAll m r left s \<noteq> []" "hd (replaceAll m r left s) \<noteq> 0x3E"
  shows "s \<noteq> [] \<and> hd s \<noteq> 0x3E"
proof (cases s)
  case Nil
  with out(1) show ?thesis by simp
next
  case (Cons c cs)
  show ?thesis
  proof (cases "\<exists>k. m left (c # cs) = Some (Suc k)")
    case True
    then show ?thesis using m Cons by auto
  next
    case False
    then have "replaceAll m r left (c # cs) = c # replaceAll m r (left @ [c]) cs"
      by (cases "m left (c # cs)") (auto split: nat.splits)
    then show ?thesis using out(2) Cons by simp
  qed
qed

lemma replaceAll_keeps_no_tag:
  assumes m: "\<And>left c cs k. m left (c # cs) = Some (Suc k) \<Longrightarrow> c \<noteq> 0x3E"
    and r: "r \<noteq> []" "0x3C \<notin> set r" "0x3E \<notin> set r"
  shows "hasRawTag (replaceAll m r left s) \<Longrightarrow> hasRawTag s"
proof (induction "length s" arbitrary: s left rule: less_induct)
  case less
  show ?case
  proof (cases s)
    case Nil
    with less.prems show ?thesis by simp
  next
    case (Cons c cs)
    show ?thesis
    proof (cases "\<exists>k. m left (c # cs) = Some (Suc k)")
      case True
      then obtain k where k: "m left (c # cs) = Some (Suc k)" by blast
      define R where "R = replaceAll m r (left @ take (Suc k) (c # cs)) (drop k cs)"
      have "replaceAll m r left (c # cs) = r @ R" using k by (simp add: R_def)
      then have "hasRawTag R" using less.prems r(2) by (simp add: Cons hasRawTag_after)
      then have "hasRawTag (drop k cs)"
        unfolding R_def by (rule less.hyps [rotated]) (simp add: Cons)
      then have "hasRawTag cs" by (rule hasRawTag_drop)
      then show ?thesis by (simp add: Cons hasRawTag_Cons)
    next
      case False
      define R where "R = replaceAll m r (left @ [c]) cs"
      have step: "replaceAll m r left (c # cs) = c # R"
        using False by (cases "m left (c # cs)") (auto simp: R_def split: nat.splits)
      have IH: "hasRawTag R \<Longrightarrow> hasRawTag cs"
        unfolding R_def by (rule less.hyps [rotated]) (simp_all add: Cons)
      have "hasRawTag (c # R)" using less.prems unfolding Cons step .
      then consider "c = 0x3C \<and> R \<noteq> [] \<and> hd R \<noteq> 0x3E \<and> 0x3E \<in> set R" | "hasRawTag R"
        by (auto simp: hasRawTag_Cons)
      then show ?thesis
      proof cases
        case 1
        have "set R \<subseteq> set r \<union> set cs" unfolding R_def by (rule set_replaceAll)
        then have gt: "0x3E \<in> set cs" using 1 r(3) by auto
        have out: "replaceAll m r (left @ [c]) cs \<noteq> []"
          "hd (replaceAll m r (left @ [c]) cs) \<noteq> 0x3E"
          using 1 unfolding R_def by blast+
        have "cs \<noteq> [] \<and> hd cs \<noteq> 0x3E"
          by (rule replaceAll_hd [of m r "left @ [c]" cs, OF m r(1) r(3) out])
        with 1 gt show ?thesis by (simp add: Cons hasRawTag_Cons)
      next
        case 2
        then show ?thesis using IH by (simp add: Cons hasRawTag_Cons)
      qed
    qed
  qed
qed

lemma literal_absent:
  assumes "pat \<noteq> []" "hd pat \<notin> set s"
  shows "replaceAll (literal pat) r left s = s"
  using assms(2)
proof (induction s arbitrary: left)
  case Nil
  then show ?case by simp
next
  case (Cons c cs)
  obtain p ps where pat: "pat = p # ps" using assms(1) by (cases pat) auto
  have "p \<noteq> c" using Cons.prems pat by auto
  then have "literal pat left (c # cs) = None" by (auto simp: literal_def pat)
  moreover have "replaceAll (literal pat) r (left @ [c]) cs = cs"
    using Cons.IH Cons.prems by simp
  ultimately show ?case by simp
qed

lemma trim_sub: "\<exists>a b. s = a @ trim s @ b"
proof -
  have "s = takeWhile isSpace s @ dropWhile isSpace s" by simp
  moreover have "rev (dropWhile isSpace s)
      = takeWhile isSpace (rev (dropWhile isSpace s)) @ dropWhile isSpace (rev (dropWhile isSpace s))"
    by simp
  then have "dropWhile isSpace s
      = rev (dropWhile isSpace (rev (dropWhile isSpace s)))
        @ rev (takeWhile isSpace (rev (dropWhile isSpace s)))"
    by (metis rev_append rev_rev_ident)
  ultimately have "s = takeWhile isSpace s @ trim s @ rev (takeWhile isSpace (rev (dropWhile isSpace s)))"
    by (simp add: trim_def)
  then show ?thesis by blast
qed

lemma hasRawTag_trim: "hasRawTag (trim s) \<Longrightarrow> hasRawTag s"
proof -
  assume t: "hasRawTag (trim s)"
  obtain a b where s: "s = a @ trim s @ b" using trim_sub by blast
  have "hasRawTag (a @ trim s @ b)"
    using t by (intro hasRawTag_prepend hasRawTag_append)
  then show ?thesis using s by simp
qed

text \<open>\<open>hasRawTag\<close> in the words of the claim.\<close>

lemma hasRawTag_iff:
  "hasRawTag s \<longleftrightarrow>
     (\<exists>pre body post. s = pre @ [0x3C] @ body @ [0x3E] @ post \<and> body \<noteq> [] \<and> 0x3E \<notin> set body)"
proof
  assume "hasRawTag s"
  then show "\<exists>pre body post. s = pre @ [0x3C] @ body @ [0x3E] @ post \<and> body \<noteq> [] \<and> 0x3E \<notin> set body"
  proof (induction s)
    case Nil
    then show ?case by simp
  next
    case (Cons c cs)
    from Cons.prems consider "c = 0x3C \<and> cs \<noteq> [] \<and> hd cs \<noteq> 0x3E \<and> 0x3E \<in> set cs" | "hasRawTag cs"
      by (auto simp: hasRawTag_Cons)
    then show ?case
    proof cases
      case 1
      define body where "body = takeWhile (\<lambda>x. x \<noteq> 0x3E) cs"
      define rest where "rest = dropWhile (\<lambda>x. x \<noteq> 0x3E) cs"
      have cs: "cs = body @ rest" by (simp add: body_def rest_def)
      have b: "body \<noteq> []" "0x3E \<notin> set body"
        using 1 by (cases cs, simp, simp add: body_def) (auto simp: body_def dest: set_takeWhileD)
      have "rest \<noteq> []" using 1 by (simp add: rest_def dropWhile_eq_Nil_conv)
      moreover have "hd rest = 0x3E" using calculation hd_dropWhile [of "\<lambda>x. x \<noteq> 0x3E" cs]
        by (simp add: rest_def)
      ultimately obtain post where "rest = 0x3E # post" by (cases rest) auto
      then have "c # cs = [] @ [0x3C] @ body @ [0x3E] @ post" using 1 cs by simp
      with b show ?thesis by blast
    next
      case 2
      from Cons.IH [OF this] obtain pre body post
        where "cs = pre @ [0x3C] @ body @ [0x3E] @ post" "body \<noteq> []" "0x3E \<notin> set body"
        by blast
      then have "c # cs = (c # pre) @ [0x3C] @ body @ [0x3E] @ post" by simp
      with \<open>body \<noteq> []\<close> \<open>0x3E \<notin> set body\<close> show ?thesis by blast
    qed
  qed
next
  assume "\<exists>pre body post. s = pre @ [0x3C] @ body @ [0x3E] @ post \<and> body \<noteq> [] \<and> 0x3E \<notin> set body"
  then obtain pre body post
    where s: "s = pre @ [0x3C] @ body @ [0x3E] @ post" and b: "body \<noteq> []" "0x3E \<notin> set body"
    by blast
  have "hd (body @ [0x3E] @ post) \<noteq> 0x3E" using b by (cases body) auto
  then have "hasRawTag (0x3C # body @ [0x3E] @ post)"
    using b by (simp add: hasRawTag_Cons)
  then have "hasRawTag (pre @ 0x3C # body @ [0x3E] @ post)" by (rule hasRawTag_prepend)
  then show "hasRawTag s" by (simp add: s)
qed

lemma not_space_gt: "isSpace c \<Longrightarrow> c \<noteq> 0x3E"
  by (auto simp: isSpace_def)

lemma spacesNewlineAt_start: "spacesNewlineAt left (c # cs) = Some (Suc k) \<Longrightarrow> c \<noteq> 0x3E"
proof -
  assume a: "spacesNewlineAt left (c # cs) = Some (Suc k)"
  have "isSpace c"
  proof (rule ccontr)
    assume "\<not> isSpace c"
    then have "spacesNewlineAt left (c # cs) = None"
      by (simp add: spacesNewlineAt_def lastIndexOf_def)
    with a show False by simp
  qed
  then show ?thesis by (rule not_space_gt)
qed

lemma newlineSpacesAt_start: "newlineSpacesAt left (c # cs) = Some (Suc k) \<Longrightarrow> c \<noteq> 0x3E"
  by (auto simp: newlineSpacesAt_def Let_def split: if_splits)

lemma blanksAt_start:
  "someOf (\<lambda>c. c = 0x20 \<or> c = 0x09) left (c # cs) = Some (Suc k) \<Longrightarrow> c \<noteq> 0x3E"
  by (auto simp: someOf_def Let_def runLength_Cons split: if_splits)

lemma newlinesAt_start: "newlinesAt left (c # cs) = Some (Suc k) \<Longrightarrow> c \<noteq> 0x3E"
  by (auto simp: newlinesAt_def Let_def runLength_Cons split: if_splits)

lemma normalizeSpace_keeps_no_tag: "hasRawTag (normalizeSpace s) \<Longrightarrow> hasRawTag s"
proof -
  assume a: "hasRawTag (normalizeSpace s)"
  define s12 where "s12 = replaceAll spacesNewlineAt [0x0A] [] s"
  define s13 where "s13 = replaceAll newlineSpacesAt [0x0A] [] s12"
  define s14 where "s14 = replaceAll (someOf (\<lambda>c. c = 0x20 \<or> c = 0x09)) (js '' '') [] s13"
  define s15 where "s15 = replaceAll newlinesAt [0x0A, 0x0A] [] s14"
  have "normalizeSpace s = trim s15"
    by (simp add: normalizeSpace_def s12_def s13_def s14_def s15_def)
  then have "hasRawTag s15" using a hasRawTag_trim by simp
  then have "hasRawTag s14"
    unfolding s15_def by (rule replaceAll_keeps_no_tag [rotated 4]) (auto dest: newlinesAt_start)
  then have "hasRawTag s13"
    unfolding s14_def
    by (rule replaceAll_keeps_no_tag [rotated 4]) (auto dest: blanksAt_start simp: js_def)
  then have "hasRawTag s12"
    unfolding s13_def
    by (rule replaceAll_keeps_no_tag [rotated 4]) (auto dest: newlineSpacesAt_start)
  then show "hasRawTag s"
    unfolding s12_def
    by (rule replaceAll_keeps_no_tag [rotated 4]) (auto dest: spacesNewlineAt_start)
qed

lemma decodeEntities_without_amp: "0x26 \<notin> set s \<Longrightarrow> decodeEntities s = s"
  by (simp add: decodeEntities_def literal_absent js_def)

lemma stripTags_without_amp: "0x26 \<notin> set html \<Longrightarrow> 0x26 \<notin> set (stripTags html)"
proof -
  assume a: "0x26 \<notin> set html"
  have step: "0x26 \<notin> set (replaceAll m r [] s)" if "0x26 \<notin> set r" "0x26 \<notin> set s" for m r s
    using that set_replaceAll [of m r "[]" s] by blast
  have sp: "0x26 \<notin> set (js '' '')" "0x26 \<notin> set [0x0A :: code_unit]" by (simp_all add: js_def)
  show ?thesis
    unfolding stripTags_def Let_def
    by (intro step sp a)
qed

lemma literal_start: "literal pat left (c # cs) = Some (Suc k) \<Longrightarrow> c = hd pat"
  by (cases pat) (auto simp: literal_def split: if_splits)

lemma literal_not_occurring:
  assumes "pat \<noteq> []"
  shows "\<not> occurs pat s \<Longrightarrow> replaceAll (literal pat) r left s = s"
proof (induction s arbitrary: left)
  case Nil
  then show ?case by simp
next
  case (Cons c cs)
  have "literal pat [] (c # cs) = None" using Cons.prems by simp
  then have "literal pat left (c # cs) = None" by (simp add: literal_def)
  moreover have "replaceAll (literal pat) r (left @ [c]) cs = cs"
    using Cons.IH Cons.prems by simp
  ultimately show ?case by simp
qed

lemma occurs_set: "occurs pat s \<Longrightarrow> set pat \<subseteq> set s"
proof (induction s)
  case Nil
  then show ?case by simp
next
  case (Cons c cs)
  show ?case
  proof (cases "literal pat [] (c # cs) = None")
    case True
    then show ?thesis using Cons by auto
  next
    case False
    then have "take (length pat) (c # cs) = pat" by (auto simp: literal_def split: if_splits)
    then show ?thesis using set_take_subset [of "length pat" "c # cs"] by simp
  qed
qed

text \<open>
  The decoding of an entity other than \<^verbatim>\<open>&lt;\<close> and \<^verbatim>\<open>&gt;\<close> brings no raw tag syntax into
  a text: the match starts with \<open>&\<close> and the replacement has neither \<open><\<close> nor \<open>>\<close>.
\<close>

lemma entity_keeps_no_tag:
  assumes "hd pat = 0x26" "r \<noteq> []" "0x3C \<notin> set r" "0x3E \<notin> set r"
  shows "hasRawTag (replaceAll (literal pat) r left s) \<Longrightarrow> hasRawTag s"
proof (rule replaceAll_keeps_no_tag [of "literal pat" r left s])
  fix left' c cs k
  assume "literal pat left' (c # cs) = Some (Suc k)"
  then have "c = hd pat" by (rule literal_start)
  then show "c \<noteq> 0x3E" using assms(1) by simp
qed (use assms in simp_all)

lemma decodeEntities_ampDecoded:
  "decodeEntities (stripTags html) =
     replaceAll (literal (js ''&#39;'')) [squote] []
       (replaceAll (literal (js ''&quot;'')) [dquote] []
          (replaceAll (literal (js ''&gt;'')) (js ''>'') []
             (replaceAll (literal (js ''&lt;'')) (js ''<'') [] (ampDecoded html))))"
  by (simp add: decodeEntities_def ampDecoded_def)

lemma ampDecoded_no_tag: "\<not> hasRawTag (ampDecoded html)"
proof
  assume "hasRawTag (ampDecoded html)"
  then have "hasRawTag (replaceAll (literal (js ''&nbsp;'')) (js '' '') [] (stripTags html))"
    unfolding ampDecoded_def by (rule entity_keeps_no_tag [rotated 4]) (simp_all add: js_def)
  then have "hasRawTag (stripTags html)"
    by (rule entity_keeps_no_tag [rotated 4]) (simp_all add: js_def)
  moreover have "\<not> hasRawTag (stripTags html)"
    unfolding stripTags_def Let_def by (rule no_tag_after_strip)
  ultimately show False by simp
qed

lemma ampDecoded_without_amp: "0x26 \<notin> set html \<Longrightarrow> 0x26 \<notin> set (ampDecoded html)"
proof -
  assume "0x26 \<notin> set html"
  then have a: "0x26 \<notin> set (stripTags html)" by (rule stripTags_without_amp)
  then show ?thesis by (simp add: ampDecoded_def literal_absent js_def)
qed

text \<open>
  C7, as amended. The text with the tags stripped never contains raw tag syntax, and
  neither does the output of the stripper for every input html in which, once the tags
  are stripped and \<^verbatim>\<open>&nbsp;\<close> and \<^verbatim>\<open>&amp;\<close> are decoded, neither \<^verbatim>\<open>&lt;\<close> nor \<^verbatim>\<open>&gt;\<close> is
  left to decode; such is every input html without \<open>&\<close>.
\<close>

theorem stripHtml_no_raw_tag:
  "\<not> hasRawTag (stripTags html)
   \<and> (\<not> occurs (js ''&lt;'') (ampDecoded html) \<and> \<not> occurs (js ''&gt;'') (ampDecoded html) \<longrightarrow>
        \<not> hasRawTag (stripHtml html))
   \<and> (0x26 \<notin> set html \<longrightarrow> \<not> hasRawTag (stripHtml html))"
proof -
  have tags: "\<not> hasRawTag (stripTags html)"
    unfolding stripTags_def Let_def by (rule no_tag_after_strip)
  have main: "\<not> hasRawTag (stripHtml html)"
    if no: "\<not> occurs (js ''&lt;'') (ampDecoded html)" "\<not> occurs (js ''&gt;'') (ampDecoded html)"
  proof
    assume "hasRawTag (stripHtml html)"
    then have "hasRawTag (decodeEntities (stripTags html))"
      unfolding stripHtml_def by (rule normalizeSpace_keeps_no_tag)
    then have "hasRawTag (replaceAll (literal (js ''&quot;'')) [dquote] []
          (replaceAll (literal (js ''&gt;'')) (js ''>'') []
             (replaceAll (literal (js ''&lt;'')) (js ''<'') [] (ampDecoded html))))"
      unfolding decodeEntities_ampDecoded
      by (rule entity_keeps_no_tag [rotated 4]) (simp_all add: js_def squote_def)
    then have "hasRawTag (replaceAll (literal (js ''&gt;'')) (js ''>'') []
          (replaceAll (literal (js ''&lt;'')) (js ''<'') [] (ampDecoded html)))"
      by (rule entity_keeps_no_tag [rotated 4]) (simp_all add: js_def dquote_def)
    moreover have "replaceAll (literal (js ''&lt;'')) (js ''<'') [] (ampDecoded html)
        = ampDecoded html"
      using no(1) by (intro literal_not_occurring) (simp_all add: js_def)
    moreover have "replaceAll (literal (js ''&gt;'')) (js ''>'') [] (ampDecoded html)
        = ampDecoded html"
      using no(2) by (intro literal_not_occurring) (simp_all add: js_def)
    ultimately have "hasRawTag (ampDecoded html)" by simp
    then show False using ampDecoded_no_tag by simp
  qed
  have "\<not> hasRawTag (stripHtml html)" if "0x26 \<notin> set html"
  proof -
    have a: "0x26 \<notin> set (ampDecoded html)" using that by (rule ampDecoded_without_amp)
    have "\<not> occurs (js ''&lt;'') (ampDecoded html)" "\<not> occurs (js ''&gt;'') (ampDecoded html)"
      using a occurs_set [of "js ''&lt;''" "ampDecoded html"]
        occurs_set [of "js ''&gt;''" "ampDecoded html"]
      by (auto simp: js_def)
    then show ?thesis by (rule main)
  qed
  with tags main show ?thesis by blast
qed

theorem stripHtml_no_raw_tag_witness:
  "\<not> occurs (js ''&lt;'') (ampDecoded (js ''<p>Tom &amp; Jerry</p>''))
   \<and> \<not> occurs (js ''&gt;'') (ampDecoded (js ''<p>Tom &amp; Jerry</p>''))
   \<and> \<not> hasRawTag (stripHtml (js ''<p>Tom &amp; Jerry</p>''))
   \<and> 0x26 \<notin> set (js ''<p>a <b>c</b></p>'') \<and> \<not> hasRawTag (stripHtml (js ''<p>a <b>c</b></p>''))"
proof -
  have a: "ampDecoded (js ''<p>Tom &amp; Jerry</p>'') = js '' Tom & Jerry'' @ [0x0A]"
    by code_simp
  have o: "\<not> occurs (js ''&lt;'') (ampDecoded (js ''<p>Tom &amp; Jerry</p>''))"
    "\<not> occurs (js ''&gt;'') (ampDecoded (js ''<p>Tom &amp; Jerry</p>''))"
    unfolding a by (simp_all add: js_def literal_def)
  have h: "0x26 \<notin> set (js ''<p>a <b>c</b></p>'')" by (simp add: js_def)
  show ?thesis
    using stripHtml_no_raw_tag [of "js ''<p>Tom &amp; Jerry</p>''"]
      stripHtml_no_raw_tag [of "js ''<p>a <b>c</b></p>''"] o h
    by blast
qed

text \<open>
  C7 as stated fails: the entities are decoded after the tags are stripped, so
  \<^verbatim>\<open>&lt;b&gt;\<close> comes out as \<^verbatim>\<open><b>\<close>.
\<close>

theorem stripHtml_decodes_to_tag:
  "stripHtml (js ''&lt;b&gt;'') = js ''<b>'' \<and> hasRawTag (stripHtml (js ''&lt;b&gt;''))"
  by code_simp

end
